theory Spec2Isabelle
  imports Main "HOL-Library.Word" "HOL-Library.Sublist"
begin

unbundle bit_operations_syntax

section \<open>Get-from-neighbour flags of a target\<close>

text \<open>
  Go's \<open>int64\<close> arithmetic wraps around; \<open>wrap64\<close> is that wrap-around on
  mathematical integers (two's complement, 64 bits).
\<close>

definition wrap64 :: "int \<Rightarrow> int" where
  "wrap64 i = ((i + 2 ^ 63) mod 2 ^ 64) - 2 ^ 63"

definition MaxInt64 :: int where
  "MaxInt64 = 2 ^ 63 - 1"

text \<open>\<open>getFromNeighAfterJoin = time.Second * 30\<close>, in nanoseconds.\<close>

definition getFromNeighAfterJoin :: int where
  "getFromNeighAfterJoin = 30 * 1000000000"

text \<open>
  \<open>localGFN\<close> and \<open>globalGFN\<close> both have a field \<open>lookup\<close> in the source; the
  records name them \<open>lookupL\<close> and \<open>lookupG\<close>.
\<close>

record localGFN =
  lookupL :: bool

record globalGFN =
  lookupG :: bool
  stopDeadline :: int

definition localGFN_active :: "localGFN \<Rightarrow> bool" where
  "localGFN_active gfn = lookupL gfn"

definition localGFN_activate :: "localGFN \<Rightarrow> localGFN" where
  "localGFN_activate gfn = gfn\<lparr>lookupL := True\<rparr>"

definition localGFN_deactivate :: "localGFN \<Rightarrow> localGFN" where
  "localGFN_deactivate gfn = gfn\<lparr>lookupL := False\<rparr>"

definition globalGFN_deactivate :: "globalGFN \<Rightarrow> globalGFN" where
  "globalGFN_deactivate gfn = gfn\<lparr>lookupG := False\<rparr>"

text \<open>
  \<open>active\<close> reads the clock (\<open>now\<close>, \<open>time.Now().UnixNano()\<close>) and may clear the flag,
  so it returns the answer and the new state.
\<close>

definition globalGFN_active :: "int \<Rightarrow> globalGFN \<Rightarrow> bool \<times> globalGFN" where
  "globalGFN_active now gfn =
     (if \<not> lookupG gfn then (False, gfn)
      else if now > stopDeadline gfn then (False, globalGFN_deactivate gfn)
      else (True, gfn))"

definition globalGFN_activate :: "int \<Rightarrow> globalGFN \<Rightarrow> globalGFN" where
  "globalGFN_activate now gfn =
     gfn\<lparr>stopDeadline := wrap64 (now + getFromNeighAfterJoin), lookupG := True\<rparr>"

section \<open>Mountpath run group (ais/fspathrgrp.go)\<close>

text \<open>
  The calls a mountpath operation makes, in order. The log is an observation of the run, not a
  field of the source's structs.
\<close>

datatype mp_event =
    GfnActivate
  | GfnDeactivate
  | FsEnable string
  | FsDisable string
  | FsAdd string
  | FsRemove string
  | AddMpathEvent string string
  | DelMpathEvent string string

record targetrunner =
  smap_Pmap :: "string list"
  capUsed_oos :: bool
  gfn_local :: localGFN
  gfn_global :: globalGFN
  mplog :: "mp_event list"

text \<open>
  Modelled from the spec: \<open>Activate\<close> and \<open>Deactivate\<close> of the local flag, as the mountpath
  group calls them, are not in the sources (the target's own \<open>activate\<close> and \<open>deactivate\<close>
  return nothing). They set and clear the flag as those do, and \<open>Activate\<close> returns whether
  the flag was already active: the callers name its result \<open>gfnActive\<close>.
\<close>

definition localGFN_Activate :: "localGFN \<Rightarrow> bool \<times> localGFN" where
  "localGFN_Activate gfn = (localGFN_active gfn, localGFN_activate gfn)"

definition localGFN_Deactivate :: "localGFN \<Rightarrow> localGFN" where
  "localGFN_Deactivate gfn = localGFN_deactivate gfn"

definition gfn_local_Activate :: "targetrunner \<Rightarrow> bool \<times> targetrunner" where
  "gfn_local_Activate t =
     (fst (localGFN_Activate (gfn_local t)),
      t\<lparr>gfn_local := snd (localGFN_Activate (gfn_local t)), mplog := mplog t @ [GfnActivate]\<rparr>)"

definition gfn_local_Deactivate :: "targetrunner \<Rightarrow> targetrunner" where
  "gfn_local_Deactivate t =
     t\<lparr>gfn_local := localGFN_Deactivate (gfn_local t), mplog := mplog t @ [GfnDeactivate]\<rparr>"

definition addMpathAct :: string where "addMpathAct = ''Added''"
definition enableMpathAct :: string where "enableMpathAct = ''Enabled''"
definition removeMpathAct :: string where "removeMpathAct = ''Removed''"
definition disableMpathAct :: string where "disableMpathAct = ''Disabled''"

text \<open>
  \<open>addMpathEvent\<close> and \<open>delMpathEvent\<close> abort the mountpath xactions, notify the runners and
  start the resilver in a goroutine of its own; none of that touches the flag in the calling
  thread, and the model records the call only.
\<close>

definition addMpathEvent :: "string \<Rightarrow> string \<Rightarrow> targetrunner \<Rightarrow> targetrunner" where
  "addMpathEvent action mpath t = t\<lparr>mplog := mplog t @ [AddMpathEvent action mpath]\<rparr>"

definition delMpathEvent :: "string \<Rightarrow> string \<Rightarrow> targetrunner \<Rightarrow> targetrunner" where
  "delMpathEvent action mpath t = t\<lparr>mplog := mplog t @ [DelMpathEvent action mpath]\<rparr>"

text \<open>
  The filesystem registry (\<open>fs.Enable\<close>, \<open>fs.Disable\<close>, \<open>fs.Add\<close>, \<open>fs.Remove\<close>) is not in
  the sources: each operation takes the registry's answer for the mountpath as a function.
  An error is its message; \<open>None\<close> is Go's \<open>nil\<close>.
\<close>

definition enableMountpath ::
  "(string \<Rightarrow> bool \<times> string option) \<Rightarrow> string \<Rightarrow> targetrunner
     \<Rightarrow> (bool \<times> string option) \<times> targetrunner" where
  "enableMountpath fs_Enable mpath t =
     (let (gfnActive, t1) = gfn_local_Activate t;
          (enabled, err) = fs_Enable mpath;
          t2 = t1\<lparr>mplog := mplog t1 @ [FsEnable mpath]\<rparr>
      in if err \<noteq> None \<or> \<not> enabled
         then (if \<not> gfnActive then ((enabled, err), gfn_local_Deactivate t2)
               else ((enabled, err), t2))
         else ((enabled, err), addMpathEvent enableMpathAct mpath t2))"

definition disableMountpath ::
  "(string \<Rightarrow> bool \<times> string option) \<Rightarrow> string \<Rightarrow> targetrunner
     \<Rightarrow> (bool \<times> string option) \<times> targetrunner" where
  "disableMountpath fs_Disable mpath t =
     (let (gfnActive, t1) = gfn_local_Activate t;
          (disabled, err) = fs_Disable mpath;
          t2 = t1\<lparr>mplog := mplog t1 @ [FsDisable mpath]\<rparr>
      in if err \<noteq> None \<or> \<not> disabled
         then (if \<not> gfnActive then ((disabled, err), gfn_local_Deactivate t2)
               else ((disabled, err), t2))
         else ((True, None), delMpathEvent disableMpathAct mpath t2))"

definition addMountpath ::
  "(string \<Rightarrow> string option) \<Rightarrow> string \<Rightarrow> targetrunner \<Rightarrow> string option \<times> targetrunner" where
  "addMountpath fs_Add mpath t =
     (let (gfnActive, t1) = gfn_local_Activate t;
          err = fs_Add mpath;
          t2 = t1\<lparr>mplog := mplog t1 @ [FsAdd mpath]\<rparr>
      in if err \<noteq> None
         then (if \<not> gfnActive then (err, gfn_local_Deactivate t2) else (err, t2))
         else (err, addMpathEvent addMpathAct mpath t2))"

definition removeMountpath ::
  "(string \<Rightarrow> string option) \<Rightarrow> string \<Rightarrow> targetrunner \<Rightarrow> string option \<times> targetrunner" where
  "removeMountpath fs_Remove mpath t =
     (let (gfnActive, t1) = gfn_local_Activate t;
          err = fs_Remove mpath;
          t2 = t1\<lparr>mplog := mplog t1 @ [FsRemove mpath]\<rparr>
      in if err \<noteq> None
         then (if \<not> gfnActive then (err, gfn_local_Deactivate t2) else (err, t2))
         else (err, delMpathEvent removeMpathAct mpath t2))"

text \<open>What the claim calls a failed operation: an error, or (enable, disable) no change.\<close>

definition mp_failed :: "bool \<times> string option \<Rightarrow> bool" where
  "mp_failed r = (snd r \<noteq> None \<or> \<not> fst r)"

section \<open>Object handlers of a target\<close>

text \<open>
  What a handler needs of a request: its method, \<open>proxyID\<close>, the value of
  \<open>r.URL.Query().Get(cmn.URLParamProxyID)\<close> (empty when the parameter is absent), and
  \<open>silent\<close>, the value of \<open>cmn.ParseBool(query.Get(cmn.URLParamSilent))\<close>.
\<close>

record request =
  Method :: string
  proxyID :: string
  silent :: bool

text \<open>
  What a handler does, in order: a reply through \<open>invalmsghdlr\<close> or through
  \<open>invalmsghdlrsilent\<close> (the message and the status code when one is passed; without one the
  helper replies with its default, BadRequest), the run of a step of the operation's body, or
  a line written by \<open>glog.Infof\<close>.
\<close>

datatype hevent =
    Invalmsghdlr string "int option"
  | Invalmsghdlrsilent string "int option"
  | Body string
  | Infof string

text \<open>
  The answers of the callees that are not in the sources, for one request:
  \<open>checkRESTItems\<close> (which replies itself when it fails), \<open>offsetAndLength\<close>, \<open>cmn.ReadBytes\<close>
  and \<open>jsoniter.Unmarshal\<close>, \<open>LOM.Init\<close>, \<open>AllowGET/AllowPUT/AllowDELETE\<close>, \<open>lom.Load\<close>, the
  printed name of the LOM, and the result of the operation's body: of \<open>getObject\<close>, \<open>doPut\<close>
  and \<open>objDelete\<close>, and for HEAD of the rest of the handler after its first log line (the
  presence check and \<open>headobject\<close>, which reply with a message and a status code when they
  fail). \<open>FastV4\<close> is the answer of \<open>glog.FastV(4, glog.SmoduleAIS)\<close>, and \<open>elapsed\<close> the
  printed number of microseconds since the DELETE handler started.
\<close>

record handler_env =
  checkRESTItems_ok :: bool
  range_errstr :: string
  ReadBytes_errstr :: "string option"
  Unmarshal_err :: "string option"
  LOM_Init_errstr :: string
  Allow_err :: "string option"
  Load_errstr :: string
  lom_StringEx :: string
  body_err :: "(string \<times> int) option"
  FastV4 :: bool
  elapsed :: string

definition GetProxy :: "targetrunner \<Rightarrow> string \<Rightarrow> string option" where
  "GetProxy t pid = (if pid \<in> set (smap_Pmap t) then Some pid else None)"

definition redirected_msg :: "string \<Rightarrow> string \<Rightarrow> string" where
  "redirected_msg m action = m @ '' '' @ action @ '' requests are expected to be redirected''"

definition unknown_proxy_msg :: "string \<Rightarrow> string \<Rightarrow> string \<Rightarrow> string" where
  "unknown_proxy_msg m action pid =
     m @ '' '' @ action @ '' request from an unknown proxy/gateway ID '' @ [CHR 0x27] @ pid
       @ [CHR 0x27] @ '' - Smap out of sync?''"

definition verifyProxyRedirection ::
  "targetrunner \<Rightarrow> request \<Rightarrow> string \<Rightarrow> bool \<times> hevent list" where
  "verifyProxyRedirection t r action =
     (let pid = proxyID r in
      if pid = [] then (False, [Invalmsghdlr (redirected_msg (Method r) action) None])
      else if GetProxy t pid = None
      then (False, [Invalmsghdlr (unknown_proxy_msg (Method r) action pid) None])
      else (True, []))"

definition httpobjget :: "handler_env \<Rightarrow> targetrunner \<Rightarrow> request \<Rightarrow> hevent list" where
  "httpobjget env t r =
     (if \<not> checkRESTItems_ok env then []
      else if range_errstr env \<noteq> [] then [Invalmsghdlr (range_errstr env) None]
      else if LOM_Init_errstr env \<noteq> [] then [Invalmsghdlr (LOM_Init_errstr env) None]
      else case Allow_err env of
        Some e \<Rightarrow> [Invalmsghdlr e None]
      | None \<Rightarrow>
          Body ''getObject'' #
            (case body_err env of
               None \<Rightarrow> []
             | Some (e, errCode) \<Rightarrow> [Invalmsghdlr e (Some errCode)]))"

definition httpobjput :: "handler_env \<Rightarrow> targetrunner \<Rightarrow> request \<Rightarrow> hevent list" where
  "httpobjput env t r =
     (if \<not> checkRESTItems_ok env then []
      else case verifyProxyRedirection t r (Method r) of
        (False, replies) \<Rightarrow> replies
      | (True, _) \<Rightarrow>
          if capUsed_oos t then [Invalmsghdlr ''OOS'' None]
          else if LOM_Init_errstr env \<noteq> [] then [Invalmsghdlr (LOM_Init_errstr env) None]
          else case Allow_err env of
            Some e \<Rightarrow> [Invalmsghdlr e None]
          | None \<Rightarrow>
              Body ''doPut'' #
                (case body_err env of
                   None \<Rightarrow> []
                 | Some (e, errCode) \<Rightarrow> [Invalmsghdlr e (Some errCode)]))"

definition httpobjdelete :: "handler_env \<Rightarrow> targetrunner \<Rightarrow> request \<Rightarrow> hevent list" where
  "httpobjdelete env t r =
     (if \<not> checkRESTItems_ok env then []
      else case ReadBytes_errstr env of
        Some errstr \<Rightarrow> [Invalmsghdlr errstr None]
      | None \<Rightarrow>
          (case Unmarshal_err env of
             Some e \<Rightarrow> [Invalmsghdlr e None]
           | None \<Rightarrow>
               if LOM_Init_errstr env \<noteq> [] then [Invalmsghdlr (LOM_Init_errstr env) None]
               else case Allow_err env of
                 Some e \<Rightarrow> [Invalmsghdlr e None]
               | None \<Rightarrow>
                   (case body_err env of
                      Some (e, _) \<Rightarrow>
                        [Body ''objDelete'',
                         Invalmsghdlr (''Error deleting '' @ lom_StringEx env @ '': '' @ e) None]
                    | None \<Rightarrow>
                        [Body ''objDelete'', Body ''CleanupObject'']
                          @ (if FastV4 env
                             then [Infof (''DELETE: '' @ lom_StringEx env @ '', '' @ elapsed env
                                          @ '' '' @ [CHR 0xC2, CHR 0xB5] @ ''s'')]
                             else []))))"

text \<open>
  The HEAD handler replies through \<open>invalidHandler\<close>, which is \<open>invalmsghdlrsilent\<close> for a
  silent request. After the load it reads the proxy id of the query, only to print it when
  the log is verbose.
\<close>

definition invalidHandler :: "request \<Rightarrow> string \<Rightarrow> int option \<Rightarrow> hevent" where
  "invalidHandler r msg code =
     (if silent r then Invalmsghdlrsilent msg code else Invalmsghdlr msg code)"

definition httpobjhead :: "handler_env \<Rightarrow> targetrunner \<Rightarrow> request \<Rightarrow> hevent list" where
  "httpobjhead env t r =
     (if \<not> checkRESTItems_ok env then []
      else if LOM_Init_errstr env \<noteq> [] then [invalidHandler r (LOM_Init_errstr env) None]
      else Body ''Load'' #
        (if Load_errstr env \<noteq> [] then [invalidHandler r (Load_errstr env) None]
         else
           (if FastV4 env
            then (let pid = proxyID r
                  in [Infof (Method r @ '' '' @ lom_StringEx env @ '' <= '' @ pid)])
            else [])
           @ (case body_err env of
                None \<Rightarrow> []
              | Some (e, errCode) \<Rightarrow> [invalidHandler r e (Some errCode)])))"

text \<open>The request names a gateway of the current Smap.\<close>

definition known_gateway :: "targetrunner \<Rightarrow> request \<Rightarrow> bool" where
  "known_gateway t r = (proxyID r \<noteq> [] \<and> GetProxy t (proxyID r) \<noteq> None)"

definition body_executed :: "hevent list \<Rightarrow> bool" where
  "body_executed evs = (\<exists>b. Body b \<in> set evs)"

text \<open>What a handler does other than writing log lines.\<close>

fun is_Infof :: "hevent \<Rightarrow> bool" where
  "is_Infof (Infof _) = True"
| "is_Infof _ = False"

definition unlogged :: "hevent list \<Rightarrow> hevent list" where
  "unlogged evs = filter (Not \<circ> is_Infof) evs"

section \<open>Cold GET\<close>

text \<open>
  The calls of \<open>GetCold\<close> on the object locker, the cloud backend, the filesystem and the LOM,
  in order. \<open>TryLockX\<close> carries its answer, \<open>OsRemove\<close> the path it is called on.
\<close>

datatype cg_event =
    TryLockX bool
  | LockX
  | UnlockX
  | DowngradeLock
  | CloudGetobj
  | MvFile
  | LomPersist
  | LomReCache
  | OsRemove string
  | Fshc
  | StatsAddMany

text \<open>
  The answers of the callees for one cold GET: whether \<open>TryLock\<close> gets the lock, the error and
  code of the backend's \<open>getobj\<close>, the errors of \<open>cmn.MvFile\<close>, \<open>lom.Persist\<close> and \<open>os.Remove\<close>
  (an error is its message), and the printed LOM and paths the messages are built from.
\<close>

record coldget_env =
  TryLock_ok :: bool
  getobj_err :: "(string \<times> int) option"
  MvFile_err :: "string option"
  Persist_err :: "string option"
  Remove_err :: "string option"
  lom_String :: string
  lom_FQN :: string
  workFQN :: string

text \<open>
  The deferred function, installed once \<open>getobj\<close> has returned without error: it runs at every
  later return and acts only when \<open>errstr\<close> is not empty.
\<close>

definition GetCold_deferred :: "coldget_env \<Rightarrow> string \<Rightarrow> cg_event list" where
  "GetCold_deferred env errstr =
     (if errstr \<noteq> []
      then [UnlockX, OsRemove (workFQN env)]
             @ (case Remove_err env of None \<Rightarrow> [] | Some _ \<Rightarrow> [Fshc])
      else [])"

definition GetCold :: "coldget_env \<Rightarrow> bool \<Rightarrow> (string \<times> int) \<times> cg_event list" where
  "GetCold env prefetch =
     (if prefetch \<and> \<not> TryLock_ok env then ((''skip'', 0), [TryLockX False])
      else
        let locked = (if prefetch then [TryLockX True] else [LockX]) in
        case getobj_err env of
          Some (e, errcode) \<Rightarrow>
            ((lom_String env @ '': GET failed, err: '' @ e, errcode),
             locked @ [CloudGetobj, UnlockX])
        | None \<Rightarrow>
            (case MvFile_err env of
               Some e \<Rightarrow>
                 (let errstr = ''Unexpected failure to rename '' @ workFQN env @ '' => ''
                                 @ lom_FQN env @ '', err: '' @ e
                  in ((errstr, 0),
                      locked @ [CloudGetobj, MvFile, Fshc] @ GetCold_deferred env errstr))
             | None \<Rightarrow>
                 (case Persist_err env of
                    Some e \<Rightarrow>
                      ((e, 0),
                       locked @ [CloudGetobj, MvFile, LomPersist] @ GetCold_deferred env e)
                  | None \<Rightarrow>
                      (([], 0),
                       locked @ [CloudGetobj, MvFile, LomPersist, LomReCache]
                         @ (if prefetch then [UnlockX] else [StatsAddMany, DowngradeLock])
                         @ GetCold_deferred env []))))"

section \<open>Deleting an object\<close>

datatype os_error = IsNotExist | OtherError string

datatype del_event =
    DelLockX
  | DelUnlockX
  | CloudDeleteobj
  | StatsAdd string
  | DelAllCopies
  | DelOsRemove

datatype del_error =
    LoadError string
  | RemoveError os_error
  | CloudError string

text \<open>
  The LOM as \<open>objDelete\<close> reads it, with the answers of its callees: \<open>lom.Load\<close> (its error
  string, empty when the load went through, also for an object that is not there), whether
  the object exists after the load, and the errors of the backend's \<open>deleteobj\<close> and of
  \<open>os.Remove\<close>.
\<close>

record lom_del =
  BckIsLocal :: bool
  del_Load_errstr :: string
  lom_Exists :: bool
  deleteobj_err :: "string option"
  del_Remove_err :: "os_error option"
  del_String :: string
  del_StringEx :: string

text \<open>
  The result is \<open>None\<close> when the assertion \<open>!lom.BckIsLocal\<close> on an eviction panics, and else
  the returned error (\<open>None\<close> for \<open>nil\<close>) with the calls made; the deferred unlock is the last
  call on every return.
\<close>

definition objDelete :: "lom_del \<Rightarrow> bool \<Rightarrow> (del_error option \<times> del_event list) option" where
  "objDelete lom evict =
     (let delFromCloud = (\<not> BckIsLocal lom \<and> \<not> evict) in
      if del_Load_errstr lom \<noteq> []
      then Some (Some (LoadError (del_Load_errstr lom)), [DelLockX, DelUnlockX])
      else
        let delFromAIS = lom_Exists lom;
            cloudErr = (if delFromCloud then deleteobj_err lom else None);
            ev1 = [DelLockX]
                    @ (if delFromCloud
                       then CloudDeleteobj # (if cloudErr \<noteq> None then [StatsAdd ''DeleteCount''] else [])
                       else []);
            errRet = (if delFromAIS then del_Remove_err lom else None);
            ev2 = ev1 @ (if delFromAIS then [DelAllCopies, DelOsRemove] else [])
        in
        if delFromAIS \<and> errRet \<noteq> None \<and> errRet \<noteq> Some IsNotExist
        then Some (map_option RemoveError errRet, ev2 @ [DelUnlockX])
        else if delFromAIS \<and> evict \<and> BckIsLocal lom then None
        else
          let ev3 = ev2 @ (if delFromAIS \<and> evict then [StatsAdd ''LruEvict''] else []) in
          case cloudErr of
            Some e \<Rightarrow>
              Some (Some (CloudError (del_StringEx lom @ '': failed to delete from cloud: ''
                                        @ del_String lom @ '': DELETE failed, err: '' @ e)),
                    ev3 @ [DelUnlockX])
          | None \<Rightarrow> Some (map_option RemoveError errRet, ev3 @ [DelUnlockX]))"


section \<open>Streaming transport, send side (transport/send.go)\<close>

subsection \<open>Constants and data\<close>

type_synonym byte = "8 word"

definition maxHeaderSize :: nat where
  "maxHeaderSize = 1024"

definition lastMarker :: int where
  "lastMarker = MaxInt64"

definition tickMarker :: int where
  "tickMarker = uint ((word_of_int MaxInt64 :: 64 word) XOR 0xa5a5a5a5)"

definition tickUnit :: int where
  "tickUnit = 1000000000"

definition defaultIdleOut :: int where
  "defaultIdleOut = 2 * 1000000000"

definition burstNum :: int where
  "burstNum = 32"

text \<open>The state of the HTTP session: \<open>inactive = iota\<close>, \<open>active\<close>.\<close>

datatype sess = inactive | active

definition reasonUnknown :: string where "reasonUnknown = ''unknown''"
definition reasonError :: string where "reasonError = ''error''"
definition endOfStream :: string where "endOfStream = ''end-of-stream''"
definition reasonStopped :: string where "reasonStopped = ''stopped''"

text \<open>
  Go's \<open>error\<close> values as the send side makes and compares them: \<open>io.EOF\<close>; the three errors
  it formats itself, with the numbers they print (\<open>read (off) shorter than expected (size)\<close>,
  \<open>offset off != size size\<close>, \<open>terminated(reason, ...), cannot send\<close>); and any other error, of
  a reader or of the HTTP client, by its message. \<open>None\<close> of \<open>error option\<close> is \<open>nil\<close>.
\<close>

datatype error =
    EOF
  | ErrShorter int int
  | ErrOffset int int
  | ErrTerminated string
  | ErrOther string

record Bck =
  Name :: string
  Provider :: string
  Ns_Name :: string
  Ns_UUID :: string

record ObjectAttrs =
  Atime :: int
  Size :: int
  CksumType :: string
  CksumValue :: string
  Version :: string

record Header =
  Bck :: Bck
  ObjName :: string
  ObjAttrs :: ObjectAttrs
  Opaque :: "byte list"

text \<open>
  An \<open>io.ReadCloser\<close> is the stub \<open>nopRC\<close>, whose \<open>Read\<close> returns \<open>(0, nil)\<close>, or any other
  reader, given by what its successive \<open>Read\<close> calls return: the bytes (cut to the buffer) and
  the error. Past its script a reader returns \<open>(0, io.EOF)\<close>.
\<close>

datatype reader =
    nopRC
  | scripted "(byte list \<times> error option) list"

fun reader_Read :: "reader \<Rightarrow> nat \<Rightarrow> byte list \<times> error option \<times> reader" where
  "reader_Read nopRC k = ([], None, nopRC)"
| "reader_Read (scripted []) k = ([], Some EOF, scripted [])"
| "reader_Read (scripted ((d, e) # rest)) k = (take k d, e, scripted rest)"

text \<open>
  An object to transmit. A callback is a function in the source; the model names it by a
  number and records its calls. \<open>CmplPtr\<close> is an address, \<open>prc\<close> the address of a reference
  counter shared by the objects that point to it (\<open>None\<close> for \<open>nil\<close>).
\<close>

record Obj =
  Hdr :: Header
  Reader :: "reader option"
  Callback :: "nat option"
  CmplPtr :: nat
  prc :: "nat option"

type_synonym cmpl = "Obj \<times> error option"

definition Header0 :: Header where
  "Header0 = \<lparr>Bck = \<lparr>Name = [], Provider = [], Ns_Name = [], Ns_UUID = []\<rparr>, ObjName = [],
     ObjAttrs = \<lparr>Atime = 0, Size = 0, CksumType = [], CksumValue = [], Version = []\<rparr>,
     Opaque = []\<rparr>"

text \<open>The zero value \<open>Obj{}\<close>, and \<open>Obj{Hdr: Header{ObjAttrs: ObjectAttrs{Size: n}}}\<close>.\<close>

definition Obj0 :: Obj where
  "Obj0 = \<lparr>Hdr = Header0, Reader = None, Callback = None, CmplPtr = 0, prc = None\<rparr>"

definition sizeObj :: "int \<Rightarrow> Obj" where
  "sizeObj n = Obj0\<lparr>Hdr := Header0\<lparr>ObjAttrs := (ObjAttrs Header0)\<lparr>Size := n\<rparr>\<rparr>\<rparr>"

text \<open>
  The stream, with the fields the send path reads and writes. Channels are their queued
  elements, oldest first, with the capacity (\<open>postCh\<close>, of capacity 1, is its number of
  tokens); a stop channel is whether it is closed. The counters are \<open>int64\<close> in the source and
  integers here: they count bytes and objects sent and stay far from \<open>2 ^ 63\<close>. The HTTP
  client, the URL, the log prefix and the lz4 state are left out.
\<close>

record Stream =
  sessID :: int
  sessST :: sess
  stats_Num :: int
  stats_Size :: int
  stats_Offset :: int
  Numcur :: int
  Sizecur :: int
  workCh :: "Obj list"
  workCh_cap :: nat
  cmplCh :: "cmpl list"
  cmplCh_cap :: nat
  lastCh :: bool
  stopCh :: bool
  postCh :: nat
  callback :: "nat option"
  time_idleOut :: int
  time_inSend :: bool
  time_ticks :: int
  sendoff_obj :: Obj
  sendoff_off :: int
  sendoff_dod :: int
  header :: "byte list"
  term_terminated :: bool
  term_err :: "error option"
  term_reason :: string

text \<open>
  What a call did: it returned a value in a new state, it blocked (on a channel) in the state
  it had reached, or it panicked.
\<close>

datatype ('r, 's) outcome =
    Returns 'r 's
  | Blocks 's
  | Panics

definition IsLast :: "Header \<Rightarrow> bool" where
  "IsLast hdr = (Size (ObjAttrs hdr) = lastMarker)"

definition IsIdleTick :: "Header \<Rightarrow> bool" where
  "IsIdleTick hdr = (Size (ObjAttrs hdr) = tickMarker)"

definition IsHeaderOnly :: "Header \<Rightarrow> bool" where
  "IsHeaderOnly hdr = (Size (ObjAttrs hdr) = 0 \<or> IsLast hdr)"

subsection \<open>The header on the wire\<close>

text \<open>\<open>binary.BigEndian.PutUint64\<close>: eight bytes, most significant first.\<close>

definition be64 :: "64 word \<Rightarrow> byte list" where
  "be64 w = map (\<lambda>i. ucast (drop_bit (8 * i) w)) [7, 6, 5, 4, 3, 2, 1, 0]"

definition bytes_of :: "string \<Rightarrow> byte list" where
  "bytes_of str = map (\<lambda>c. of_nat (of_char c)) str"

text \<open>
  The \<open>ins\<close> functions write into \<open>maxheader\<close> (1024 bytes) at an offset and return the next
  offset. The model keeps the bytes written from offset 16 on (\<open>pl\<close>, so the offset is
  \<open>16 + length pl\<close>) and returns \<open>None\<close> where the write runs past the buffer and the source
  panics.
\<close>

definition insByte :: "byte list \<Rightarrow> byte list \<Rightarrow> byte list option" where
  "insByte pl b =
     (if 16 + length pl + 8 + length b \<le> maxHeaderSize
      then Some (pl @ be64 (of_nat (length b)) @ b)
      else None)"

definition insString :: "byte list \<Rightarrow> string \<Rightarrow> byte list option" where
  "insString pl str = insByte pl (bytes_of str)"

definition insUint64 :: "byte list \<Rightarrow> 64 word \<Rightarrow> byte list option" where
  "insUint64 pl i = (if 16 + length pl + 8 \<le> maxHeaderSize then Some (pl @ be64 i) else None)"

definition insInt64 :: "byte list \<Rightarrow> int \<Rightarrow> byte list option" where
  "insInt64 pl i = insUint64 pl (word_of_int i)"

definition insAttrs :: "byte list \<Rightarrow> ObjectAttrs \<Rightarrow> byte list option" where
  "insAttrs pl attr =
     Option.bind (insInt64 pl (Size attr)) (\<lambda>pl.
     Option.bind (insInt64 pl (Atime attr)) (\<lambda>pl.
     Option.bind (insString pl (CksumType attr)) (\<lambda>pl.
     Option.bind (insString pl (CksumValue attr)) (\<lambda>pl.
     insString pl (Version attr)))))"

text \<open>
  \<open>insHeader\<close> returns the header, \<open>maxheader[:l]\<close>: the length of the payload, its checksum
  and the payload. The checksum function \<open>xoshiro256.Hash\<close> is not in the sources; it is the
  parameter \<open>H\<close>.
\<close>

definition insHeader :: "(64 word \<Rightarrow> 64 word) \<Rightarrow> Header \<Rightarrow> byte list option" where
  "insHeader H hdr =
     Option.bind (insString [] (Name (Bck hdr))) (\<lambda>pl.
     Option.bind (insString pl (ObjName hdr)) (\<lambda>pl.
     Option.bind (insString pl (Provider (Bck hdr))) (\<lambda>pl.
     Option.bind (insString pl (Ns_Name (Bck hdr))) (\<lambda>pl.
     Option.bind (insString pl (Ns_UUID (Bck hdr))) (\<lambda>pl.
     Option.bind (insByte pl (Opaque hdr)) (\<lambda>pl.
     Option.bind (insAttrs pl (ObjAttrs hdr)) (\<lambda>pl.
       Some (be64 (of_nat (length pl)) @ be64 (H (of_nat (length pl))) @ pl))))))))"


subsection \<open>Creating a stream\<close>

text \<open>
  \<open>strconv.ParseInt(a, 10, 0)\<close> on a 64-bit platform: an optional sign, then one or more
  decimal digits, whose value fits in an \<open>int64\<close>; \<open>None\<close> is any error.
\<close>

definition digit_of :: "char \<Rightarrow> nat option" where
  "digit_of c =
     (if 48 \<le> (of_char c :: nat) \<and> (of_char c :: nat) \<le> 57 then Some (of_char c - 48) else None)"

fun parse_digits :: "string \<Rightarrow> nat \<Rightarrow> nat option" where
  "parse_digits [] acc = Some acc"
| "parse_digits (c # cs) acc =
     (case digit_of c of None \<Rightarrow> None | Some d \<Rightarrow> parse_digits cs (acc * 10 + d))"

definition ParseUint10 :: "string \<Rightarrow> nat option" where
  "ParseUint10 a =
     (if a = [] then None
      else case parse_digits a 0 of
        None \<Rightarrow> None
      | Some n \<Rightarrow> if n < 2 ^ 64 then Some n else None)"

definition ParseInt10 :: "string \<Rightarrow> int option" where
  "ParseInt10 a =
     (if a = [] then None
      else
        let neg = (hd a = CHR ''-'');
            a' = (if hd a = CHR ''+'' \<or> hd a = CHR ''-'' then tl a else a)
        in case ParseUint10 a' of
          None \<Rightarrow> None
        | Some un \<Rightarrow>
            if \<not> neg \<and> un \<ge> 2 ^ 63 then None
            else if neg \<and> un > 2 ^ 63 then None
            else Some (if neg then - int un else int un))"

text \<open>\<open>strconv.ParseBool\<close>.\<close>

definition ParseBool :: "string \<Rightarrow> bool option" where
  "ParseBool a =
     (if a \<in> set [''1'', ''t'', ''T'', ''TRUE'', ''true'', ''True''] then Some True
      else if a \<in> set [''0'', ''f'', ''F'', ''FALSE'', ''false'', ''False''] then Some False
      else None)"

text \<open>\<open>os.Getenv\<close>: the value of the variable, empty when it is not set.\<close>

definition Getenv :: "(string \<rightharpoonup> string) \<Rightarrow> string \<Rightarrow> string" where
  "Getenv env k = (case env k of None \<Rightarrow> [] | Some v \<Rightarrow> v)"

text \<open>\<open>Extra\<close>, without its compression fields.\<close>

record Extra =
  IdleTimeout :: int
  extra_Callback :: "nat option"

text \<open>The burst size \<open>NewStream\<close> computes from the environment.\<close>

definition burst_of_env :: "(string \<rightharpoonup> string) \<Rightarrow> int" where
  "burst_of_env env =
     (let a = Getenv env ''AIS_STREAM_BURST_NUM'' in
      if a \<noteq> [] then (case ParseInt10 a of None \<Rightarrow> burstNum | Some burst64 \<Rightarrow> burst64)
      else burstNum)"

text \<open>
  \<open>NewStream\<close>, given the environment, the largest size \<open>maxcap\<close> for which the runtime makes
  the two channels, whether the URL parses, whether a client is passed, the \<open>Extra\<close> (\<open>None\<close>
  for \<open>nil\<close>) and the session id \<open>nextSID.Inc()\<close> returns. It returns \<open>nil\<close> (\<open>Returns None\<close>)
  when the URL does not parse, and panics where \<open>make\<close> gets a negative size or one past
  \<open>maxcap\<close>, or the dry-run assertion fails. The second component of the state is the \<open>dryrun\<close>
  flag the send loop is started with.
\<close>

definition NewStream ::
  "(string \<rightharpoonup> string) \<Rightarrow> nat \<Rightarrow> bool \<Rightarrow> bool \<Rightarrow> Extra option \<Rightarrow> int
     \<Rightarrow> (Stream option, bool) outcome" where
  "NewStream env maxcap url_ok has_client extra sid =
     (if \<not> url_ok then Returns None False
      else
        let cb = (case extra of None \<Rightarrow> None | Some x \<Rightarrow> extra_Callback x);
            idle0 = (case extra of
                       None \<Rightarrow> defaultIdleOut
                     | Some x \<Rightarrow> if IdleTimeout x > 0 then IdleTimeout x else defaultIdleOut);
            idleOut = (if idle0 < tickUnit then tickUnit else idle0);
            burst = burst_of_env env;
            a = Getenv env ''AIS_STREAM_DRY_RUN'';
            dryrun = (if a \<noteq> [] then (case ParseBool a of None \<Rightarrow> False | Some b \<Rightarrow> b) else False)
        in
        if burst < 0 \<or> int maxcap < burst then Panics
        else if a \<noteq> [] \<and> \<not> (dryrun \<or> has_client) then Panics
        else Returns (Some
          \<lparr>sessID = sid, sessST = inactive,
           stats_Num = 0, stats_Size = 0, stats_Offset = 0, Numcur = 0, Sizecur = 0,
           workCh = [], workCh_cap = nat burst, cmplCh = [], cmplCh_cap = nat burst,
           lastCh = False, stopCh = False, postCh = 0, callback = cb,
           time_idleOut = idleOut, time_inSend = False, time_ticks = idleOut div tickUnit,
           sendoff_obj = Obj0, sendoff_off = 0, sendoff_dod = 0, header = [],
           term_terminated = False, term_err = None, term_reason = []\<rparr>) dryrun)"

subsection \<open>Send, and the stream as the body of the request\<close>

text \<open>
  \<open>Send\<close> blocks where the source blocks: on \<open>postCh\<close> when its token is still there, on
  \<open>workCh\<close> when it is full.
\<close>

definition Send :: "Obj \<Rightarrow> 'a Stream_scheme \<Rightarrow> (error option, 'a Stream_scheme) outcome" where
  "Send obj s0 =
     (let s = s0\<lparr>time_inSend := True\<rparr> in
      if term_terminated s then Returns (Some (ErrTerminated (term_reason s))) s
      else if sessST s = inactive \<and> postCh s \<ge> 1 then Blocks (s\<lparr>sessST := active\<rparr>)
      else
        let s1 = (if sessST s = inactive then s\<lparr>sessST := active, postCh := postCh s + 1\<rparr> else s)
        in
        if Reader obj = None \<and> \<not> IsHeaderOnly (Hdr obj) then Panics
        else
          let obj1 = (if Reader obj = None then obj\<lparr>Reader := Some nopRC\<rparr> else obj) in
          if length (workCh s1) \<ge> workCh_cap s1 then Blocks s1
          else Returns None (s1\<lparr>workCh := workCh s1 @ [obj1]\<rparr>))"

text \<open>\<open>Fin\<close> sends the last marker (and then waits for the two loops).\<close>

definition Fin :: "'a Stream_scheme \<Rightarrow> (error option, 'a Stream_scheme) outcome" where
  "Fin s = Send (sizeObj lastMarker) s"

definition Stop :: "'a Stream_scheme \<Rightarrow> 'a Stream_scheme" where
  "Stop s = s\<lparr>stopCh := True\<rparr>"

text \<open>
  End of object: the statistics, and the completion posted on SCQ. The result is \<open>None\<close> when
  SCQ is full: the post blocks.
\<close>

definition eoObj :: "error option \<Rightarrow> 'a Stream_scheme \<Rightarrow> 'a Stream_scheme option" where
  "eoObj err0 s =
     (let obj = sendoff_obj s;
          off = sendoff_off s;
          size = Size (ObjAttrs (Hdr obj));
          s1 = s\<lparr>Sizecur := Sizecur s + off, stats_Offset := stats_Offset s + off\<rparr>;
          err = (if err0 \<noteq> None then err0
                 else if off \<noteq> size then Some (ErrOffset off size)
                 else None);
          s2 = (if err0 = None \<and> off = size
                then s1\<lparr>stats_Size := stats_Size s1 + size, Numcur := Numcur s1 + 1,
                        stats_Num := stats_Num s1 + 1\<rparr>
                else s1)
      in if length (cmplCh s2) \<ge> cmplCh_cap s2 then None
         else Some (s2\<lparr>cmplCh := cmplCh s2 @ [(obj, err)],
                       sendoff_obj := Obj0, sendoff_off := 0, sendoff_dod := 0\<rparr>))"

definition sendHdr ::
  "nat \<Rightarrow> 'a Stream_scheme \<Rightarrow> (byte list \<times> error option, 'a Stream_scheme) outcome" where
  "sendHdr k s =
     (if sendoff_off s < 0 \<or> sendoff_off s > int (length (header s)) then Panics
      else
        let bs = take k (drop (nat (sendoff_off s)) (header s));
            off = sendoff_off s + int (length bs)
        in
        if off \<ge> int (length (header s))
        then
          (let s1 = s\<lparr>stats_Offset := stats_Offset s + off, sendoff_dod := off, sendoff_off := 0\<rparr>
           in if IsLast (Hdr (sendoff_obj s)) then Returns (bs, Some EOF) (s1\<lparr>lastCh := True\<rparr>)
              else Returns (bs, None) s1)
        else Returns (bs, None) (s\<lparr>sendoff_off := off\<rparr>))"

text \<open>
  \<open>sendData\<close> reads the object's reader into the buffer. Where \<open>eoObj\<close> blocks, the call has
  not returned and the model leaves the state as it was before the call.
\<close>

definition sendData ::
  "nat \<Rightarrow> 'a Stream_scheme \<Rightarrow> (byte list \<times> error option, 'a Stream_scheme) outcome" where
  "sendData k s =
     (case Reader (sendoff_obj s) of
        None \<Rightarrow> Panics
      | Some r \<Rightarrow>
          (let objSize = Size (ObjAttrs (Hdr (sendoff_obj s)));
               (d, err, r') = reader_Read r k;
               s1 = s\<lparr>sendoff_obj := (sendoff_obj s)\<lparr>Reader := Some r'\<rparr>,
                      sendoff_off := sendoff_off s + int (length d)\<rparr>
           in case err of
             Some e \<Rightarrow>
               if e = EOF
               then (if sendoff_off s1 < objSize
                     then Returns (d, Some (ErrShorter (sendoff_off s1) objSize)) s1
                     else (case eoObj None s1 of
                             None \<Rightarrow> Blocks s
                           | Some s2 \<Rightarrow> Returns (d, None) s2))
               else (case eoObj (Some e) s1 of
                       None \<Rightarrow> Blocks s
                     | Some s2 \<Rightarrow> Returns (d, Some e) s2)
           | None \<Rightarrow>
               if sendoff_off s1 \<ge> objSize
               then (case eoObj None s1 of
                       None \<Rightarrow> Blocks s
                     | Some s2 \<Rightarrow> Returns (d, None) s2)
               else Returns (d, None) s1))"

definition deactivate ::
  "'a Stream_scheme \<Rightarrow> (byte list \<times> error option, 'a Stream_scheme) outcome" where
  "deactivate s = Returns ([], Some EOF) s"

text \<open>
  The \<open>select\<close> of \<open>Read\<close> on the queue \<open>q\<close> (the contents of \<open>workCh\<close>). When \<open>stopCh\<close> is closed
  and \<open>workCh\<close> is not empty, Go picks either case: \<open>pick\<close> is how many times it still picks
  \<open>workCh\<close>. An idle tick followed by more objects is dropped and the \<open>select\<close> repeated.
\<close>

fun Read_select ::
  "(64 word \<Rightarrow> 64 word) \<Rightarrow> nat \<Rightarrow> nat \<Rightarrow> Obj list \<Rightarrow> 'a Stream_scheme
     \<Rightarrow> (byte list \<times> error option, 'a Stream_scheme) outcome" where
  "Read_select H pick k [] s =
     (if stopCh s then Returns ([], Some EOF) (s\<lparr>workCh := []\<rparr>) else Blocks (s\<lparr>workCh := []\<rparr>))"
| "Read_select H pick k (obj # rest) s =
     (if stopCh s \<and> pick = 0 then Returns ([], Some EOF) (s\<lparr>workCh := obj # rest\<rparr>)
      else
        let s1 = s\<lparr>workCh := rest, sendoff_obj := obj\<rparr> in
        if IsIdleTick (Hdr obj)
        then (if rest \<noteq> [] then Read_select H (pick - 1) k rest s1 else deactivate s1)
        else (case insHeader H (Hdr obj) of
                None \<Rightarrow> Panics
              | Some h \<Rightarrow> sendHdr k (s1\<lparr>header := h\<rparr>)))"

text \<open>
  \<open>Read\<close> on a buffer of \<open>k\<close> bytes returns the bytes it put there and the error. A header-only
  object is completed by the call that follows its header; that call then goes on to the
  \<open>select\<close>, where it may block with the completion already posted.
\<close>

definition Read ::
  "(64 word \<Rightarrow> 64 word) \<Rightarrow> nat \<Rightarrow> nat \<Rightarrow> 'a Stream_scheme
     \<Rightarrow> (byte list \<times> error option, 'a Stream_scheme) outcome" where
  "Read H pick k s0 =
     (let s = s0\<lparr>time_inSend := True\<rparr>; obj = sendoff_obj s in
      if Reader obj \<noteq> None
      then (if sendoff_dod s \<noteq> 0
            then (if \<not> IsHeaderOnly (Hdr obj) then sendData k s
                  else if \<not> IsLast (Hdr obj)
                  then (case eoObj None s of
                          None \<Rightarrow> Blocks s
                        | Some s1 \<Rightarrow> Read_select H pick k (workCh s1) s1)
                  else Returns ([], Some EOF) s)
            else sendHdr k s)
      else Read_select H pick k (workCh s) s)"

subsection \<open>The send loop and the completion loop\<close>

text \<open>
  What a completion does to the outside: the call of a callback (by its number) with the
  object (its header, reader and \<open>CmplPtr\<close>) and the error, and the \<open>Close\<close> of the object's
  reader.
\<close>

datatype cevent =
    Called nat Obj "error option"
  | Closed Obj

text \<open>
  \<open>objDone\<close>, given the stream's callback and the memory of the reference counters. It
  returns the calls it made and the new memory, or \<open>None\<close> where the assertion \<open>rc >= 0\<close>
  panics.
\<close>

definition objDone ::
  "nat option \<Rightarrow> Obj \<Rightarrow> error option \<Rightarrow> (nat \<Rightarrow> int) \<Rightarrow> (cevent list \<times> (nat \<Rightarrow> int)) option" where
  "objDone scb obj err heap =
     (let rc = (case prc obj of None \<Rightarrow> 0 | Some p \<Rightarrow> wrap64 (heap p - 1));
          heap' = (case prc obj of None \<Rightarrow> heap | Some p \<Rightarrow> heap(p := rc))
      in if rc < 0 then None
         else Some
           ((if rc = 0
             then (case Callback obj of
                     Some cb \<Rightarrow> [Called cb obj err]
                   | None \<Rightarrow> (case scb of Some cb \<Rightarrow> [Called cb obj err] | None \<Rightarrow> []))
             else [])
            @ (if Reader obj \<noteq> None then [Closed obj] else []),
            heap'))"

text \<open>\<open>terminate\<close> posts the last marker with the recorded error on SCQ.\<close>

definition terminate :: "'a Stream_scheme \<Rightarrow> (unit, 'a Stream_scheme) outcome" where
  "terminate s =
     (if term_terminated s then Panics
      else
        let s1 = Stop (s\<lparr>term_terminated := True\<rparr>) in
        if length (cmplCh s1) \<ge> cmplCh_cap s1 then Blocks s1
        else Returns () (s1\<lparr>cmplCh := cmplCh s1 @ [(sizeObj lastMarker, term_err s1)]\<rparr>))"

text \<open>The \<open>select\<close> of \<open>isNextReq\<close>, with the case Go picks among those that are ready.\<close>

datatype next_choice = PickLast | PickStop | PickPost

definition isNextReq :: "next_choice \<Rightarrow> 'a Stream_scheme \<Rightarrow> (bool, 'a Stream_scheme) outcome" where
  "isNextReq c s =
     (case c of
        PickLast \<Rightarrow> if lastCh s then Returns False (s\<lparr>term_reason := endOfStream\<rparr>) else Blocks s
      | PickStop \<Rightarrow> if stopCh s then Returns False (s\<lparr>term_reason := reasonStopped\<rparr>) else Blocks s
      | PickPost \<Rightarrow>
          if postCh s > 0 then Returns True (s\<lparr>postCh := postCh s - 1, sessST := active\<rparr>)
          else Blocks s)"

text \<open>\<open>doRequest\<close> resets the per-session counters and hands the stream to the client.\<close>

definition doRequest :: "'a Stream_scheme \<Rightarrow> 'a Stream_scheme" where
  "doRequest s = s\<lparr>Numcur := 0, Sizecur := 0\<rparr>"

text \<open>
  Modelled from the spec: the collector is not in the sources. The spec says that a stream
  idle for its timeout, with an empty SQ, "is sent an idle-tick object (not a real object: it
  is the reserved size value)", and that the session is then inactive until the next \<open>Send\<close>.
  The collector looks at the queue before it posts, not while, so objects can be queued around
  a tick; the model posts a tick whenever the session is active and SQ has room.
\<close>

definition idle_tick :: "'a Stream_scheme \<Rightarrow> 'a Stream_scheme option" where
  "idle_tick s =
     (if term_terminated s \<or> sessST s \<noteq> active \<or> length (workCh s) \<ge> workCh_cap s then None
      else Some (s\<lparr>sessST := inactive, workCh := workCh s @ [sizeObj tickMarker]\<rparr>))"

text \<open>
  Where the send loop stands: at the top of its loop, inside \<open>do\<close> (the request is open and
  the client reads the stream), in \<open>isNextReq\<close>, before \<open>terminate\<close>, in \<open>wg.Wait\<close> for the
  completion loop, before the completion of the interrupted object, draining SQ, or returned.
\<close>

datatype sl_pc = SL_Top | SL_InReq | SL_IsNextReq | SL_Terminate | SL_Wait | SL_Inflight
  | SL_DrainSQ | SL_Exit

text \<open>
  A stream with its two goroutines. Beside the stream: where the send loop stands, whether
  the completion loop has returned, the memory of the reference counters, and what an
  observer has seen so far: the objects \<open>Send\<close> queued on SQ, the completions posted on SCQ,
  the calls of \<open>objDone\<close> (the object, the error, and the calls it made), and the bytes the
  client read.
\<close>

record sys = Stream +
  sl :: sl_pc
  cl_done :: bool
  rc_heap :: "nat \<Rightarrow> int"
  sq_log :: "Obj list"
  scq_log :: "cmpl list"
  done_log :: "(Obj \<times> error option \<times> cevent list) list"
  wire :: "byte list"

definition start :: "Stream \<Rightarrow> (nat \<Rightarrow> int) \<Rightarrow> sys" where
  "start st heap =
     Stream.extend st
       (sys.fields SL_Top False heap [] [] [] [])"

text \<open>A completion by \<open>objDone\<close>, recorded.\<close>

definition complete :: "Obj \<Rightarrow> error option \<Rightarrow> sys \<Rightarrow> sys option" where
  "complete obj err s =
     (case objDone (callback s) obj err (rc_heap s) of
        None \<Rightarrow> None
      | Some (evs, heap') \<Rightarrow>
          Some (s\<lparr>rc_heap := heap', done_log := done_log s @ [(obj, err, evs)]\<rparr>))"

text \<open>
  The steps of the system. The callers: \<open>Send\<close> of an object (\<open>Fin\<close> is the \<open>Send\<close> of the last
  marker), \<open>Stop\<close>, a tick of the collector. The send loop: the top of the loop; a \<open>Read\<close> by
  the client, with the choice of its \<open>select\<close> and the size of the buffer; the return of \<open>do\<close>
  with \<open>nil\<close> or an error; \<open>isNextReq\<close>; \<open>terminate\<close>; the end of \<open>wg.Wait\<close>; the completion
  of the interrupted object; one object drained from SQ. The completion loop: one entry of
  SCQ. \<open>do\<close> is not in the sources: the model lets the client read any number of times and
  lets \<open>do\<close> return at any time, with any result.
\<close>

datatype action =
    ASend Obj
  | AStop
  | ATick
  | ALoop
  | ARead nat nat
  | ADoReturns "error option"
  | ANext next_choice
  | ATerminate
  | ACmpl
  | AWait
  | AInflight
  | ADrainSQ

text \<open>
  One step; \<open>None\<close> when the step cannot be taken in this state (its goroutine is elsewhere,
  or blocked) or panics. A \<open>Send\<close> is one step, taken when it does not block.
\<close>

fun step :: "(64 word \<Rightarrow> 64 word) \<Rightarrow> action \<Rightarrow> sys \<Rightarrow> sys option" where
  "step H (ASend obj) s =
     (case Send obj s of
        Returns _ s' \<Rightarrow> Some (s'\<lparr>sq_log := sq_log s' @ drop (length (workCh s)) (workCh s')\<rparr>)
      | _ \<Rightarrow> None)"
| "step H AStop s = Some (Stop s)"
| "step H ATick s = idle_tick s"
| "step H ALoop s =
     (if sl s \<noteq> SL_Top then None
      else if sessST s = active then Some ((doRequest s)\<lparr>sl := SL_InReq\<rparr>)
      else Some (s\<lparr>sl := SL_IsNextReq\<rparr>))"
| "step H (ARead pick k) s =
     (if sl s \<noteq> SL_InReq then None
      else case Read H pick k s of
        Returns (bs, _) s' \<Rightarrow>
          Some (s'\<lparr>scq_log := scq_log s' @ drop (length (cmplCh s)) (cmplCh s'),
                  wire := wire s' @ bs\<rparr>)
      | Blocks s' \<Rightarrow>
          Some (s'\<lparr>scq_log := scq_log s' @ drop (length (cmplCh s)) (cmplCh s')\<rparr>)
      | Panics \<Rightarrow> None)"
| "step H (ADoReturns r) s =
     (if sl s \<noteq> SL_InReq then None
      else case r of
        None \<Rightarrow> Some (s\<lparr>sl := SL_IsNextReq\<rparr>)
      | Some e \<Rightarrow> Some (s\<lparr>term_reason := reasonError, term_err := Some e, sl := SL_Terminate\<rparr>))"
| "step H (ANext c) s =
     (if sl s \<noteq> SL_IsNextReq then None
      else case isNextReq c s of
        Returns True s' \<Rightarrow> Some (s'\<lparr>sl := SL_Top\<rparr>)
      | Returns False s' \<Rightarrow> Some (s'\<lparr>sl := SL_Terminate\<rparr>)
      | _ \<Rightarrow> None)"
| "step H ATerminate s =
     (if sl s \<noteq> SL_Terminate then None
      else case terminate s of
        Returns _ s' \<Rightarrow>
          Some (s'\<lparr>scq_log := scq_log s' @ drop (length (cmplCh s)) (cmplCh s'),
                  sl := (if term_reason s' \<noteq> endOfStream then SL_Wait else SL_Exit)\<rparr>)
      | _ \<Rightarrow> None)"
| "step H ACmpl s =
     (if cl_done s then None
      else case cmplCh s of
        [] \<Rightarrow> None
      | (obj, err) # rest \<Rightarrow>
          if IsLast (Hdr obj) then Some (s\<lparr>cmplCh := rest, cl_done := True\<rparr>)
          else complete obj err (s\<lparr>cmplCh := rest\<rparr>))"
| "step H AWait s =
     (if sl s = SL_Wait \<and> cl_done s then Some (s\<lparr>sl := SL_Inflight\<rparr>) else None)"
| "step H AInflight s =
     (if sl s \<noteq> SL_Inflight then None
      else if Reader (sendoff_obj s) \<noteq> None
      then complete (sendoff_obj s) (term_err s) (s\<lparr>sl := SL_DrainSQ\<rparr>)
      else Some (s\<lparr>sl := SL_DrainSQ\<rparr>))"
| "step H ADrainSQ s =
     (if sl s \<noteq> SL_DrainSQ then None
      else case workCh s of
        [] \<Rightarrow> None
      | obj # rest \<Rightarrow> complete obj (term_err s) (s\<lparr>workCh := rest\<rparr>))"

text \<open>A run: the steps of a list of actions, one after the other.\<close>

fun exec :: "(64 word \<Rightarrow> 64 word) \<Rightarrow> action list \<Rightarrow> sys \<Rightarrow> sys option" where
  "exec H [] s = Some s"
| "exec H (a # as) s = (case step H a s of None \<Rightarrow> None | Some s' \<Rightarrow> exec H as s')"


subsection \<open>What an observer compares\<close>

text \<open>
  An object of a caller: neither an idle tick nor a last marker. Reading an object changes
  its reader, so objects are compared without it.
\<close>

definition real_obj :: "Obj \<Rightarrow> bool" where
  "real_obj obj = (\<not> IsIdleTick (Hdr obj) \<and> \<not> IsLast (Hdr obj))"

definition ident :: "Obj \<Rightarrow> Obj" where
  "ident obj = obj\<lparr>Reader := None\<rparr>"

definition idents :: "Obj list \<Rightarrow> Obj list" where
  "idents objs = map ident (filter real_obj objs)"

text \<open>The object in transmission, if there is one.\<close>

definition inflight :: "'a Stream_scheme \<Rightarrow> Obj list" where
  "inflight s = (if Reader (sendoff_obj s) \<noteq> None then [sendoff_obj s] else [])"

text \<open>A stream as \<open>NewStream\<close> returns it, with its two loops about to start.\<close>

definition initial :: "sys \<Rightarrow> bool" where
  "initial s =
     (\<exists>env maxcap has_client extra sid st dryrun heap.
        NewStream env maxcap True has_client extra sid = Returns (Some st) dryrun
      \<and> s = start st heap)"

text \<open>The callback a completion calls: the object's own if it has one, else the stream's.\<close>

definition callback_of :: "nat option \<Rightarrow> Obj \<Rightarrow> nat option" where
  "callback_of scb obj = (case Callback obj of Some cb \<Rightarrow> Some cb | None \<Rightarrow> scb)"

text \<open>The send loop has not yet called \<open>terminate\<close>.\<close>

definition before_terminate :: "sys \<Rightarrow> bool" where
  "before_terminate s = (sl s \<in> {SL_Top, SL_InReq, SL_IsNextReq, SL_Terminate})"

text \<open>
  What one call of \<open>objDone\<close> on \<open>obj\<close> with \<open>err\<close> may do, on a stream whose callback is
  \<open>scb\<close>: at most one call of the callback, and after it the \<open>Close\<close> of the reader the
  object has.
\<close>

definition completion_ok :: "nat option \<Rightarrow> Obj \<Rightarrow> error option \<Rightarrow> cevent list \<Rightarrow> bool" where
  "completion_ok scb obj err evs =
     (\<exists>cbs. evs = cbs @ (if Reader obj \<noteq> None then [Closed obj] else [])
        \<and> (cbs = [] \<or> (\<exists>cb. callback_of scb obj = Some cb \<and> cbs = [Called cb obj err])))"

text \<open>
  The objects a stream holds, in the order it will handle them: those posted on SCQ (a
  change of the queue from \<open>s\<close> to \<open>s'\<close> that only posts completions of objects taken, in
  order, from the object in transmission and SQ).
\<close>

definition moved :: "'a Stream_scheme \<Rightarrow> 'a Stream_scheme \<Rightarrow> bool" where
  "moved s s' =
     (\<exists>new. cmplCh s' = cmplCh s @ new
        \<and> (\<forall>c\<in>set new. \<not> IsLast (Hdr (fst c)))
        \<and> idents (map fst new) @ idents (inflight s') @ idents (workCh s')
            = idents (inflight s) @ idents (workCh s)
        \<and> set (workCh s') \<subseteq> set (workCh s)
        \<and> term_terminated s' = term_terminated s \<and> term_err s' = term_err s
        \<and> term_reason s' = term_reason s \<and> callback s' = callback s
        \<and> stopCh s' = stopCh s \<and> Stream.more s' = Stream.more s)"

text \<open>The invariants of a run.\<close>

definition inv_readers :: "sys \<Rightarrow> bool" where
  "inv_readers s = (\<forall>ob\<in>set (workCh s). real_obj ob \<longrightarrow> Reader ob \<noteq> None)"

definition inv_phase :: "sys \<Rightarrow> bool" where
  "inv_phase s =
     ((before_terminate s \<longrightarrow>
         \<not> term_terminated s \<and> \<not> cl_done s \<and> (\<forall>c\<in>set (cmplCh s). \<not> IsLast (Hdr (fst c))))
    \<and> (\<not> before_terminate s \<longrightarrow>
         term_terminated s
       \<and> (if cl_done s then cmplCh s = []
          else \<exists>pre m. cmplCh s = pre @ [m] \<and> IsLast (Hdr (fst m))
                 \<and> (\<forall>c\<in>set pre. \<not> IsLast (Hdr (fst c)))))
    \<and> (sl s \<in> {SL_Inflight, SL_DrainSQ} \<longrightarrow> cl_done s))"

definition inv_done :: "sys \<Rightarrow> bool" where
  "inv_done s =
     (idents (map fst (done_log s)) @ idents (map fst (cmplCh s))
        @ (if sl s = SL_DrainSQ then [] else idents (inflight s)) @ idents (workCh s)
      = idents (sq_log s))"

definition inv_scq :: "sys \<Rightarrow> bool" where
  "inv_scq s =
     (if before_terminate s
      then idents (map fst (scq_log s)) @ idents (inflight s) @ idents (workCh s)
             = idents (sq_log s)
      else prefix (idents (map fst (scq_log s))) (idents (sq_log s)))"

definition inv_completions :: "sys \<Rightarrow> bool" where
  "inv_completions s =
     (\<forall>(obj, err, evs)\<in>set (done_log s). completion_ok (callback s) obj err evs)"

definition stream_inv :: "sys \<Rightarrow> bool" where
  "stream_inv s = (inv_readers s \<and> inv_phase s \<and> inv_done s \<and> inv_scq s \<and> inv_completions s)"


text \<open>The capacities of SQ and SCQ of the stream a call of \<open>NewStream\<close> returned.\<close>

fun capacities :: "(Stream option, bool) outcome \<Rightarrow> (nat \<times> nat) option" where
  "capacities (Returns (Some st) _) = Some (workCh_cap st, cmplCh_cap st)"
| "capacities _ = None"

subsection \<open>A stream and objects to run\<close>

text \<open>
  The stream \<open>NewStream\<close> returns with nothing in the environment, for the session id 1 and
  the stream callback number 7, with counters of references all at 0; and an object by its
  name, its size and its reader.
\<close>

definition ex_stream :: Stream where
  "ex_stream =
     \<lparr>sessID = 1, sessST = inactive,
      stats_Num = 0, stats_Size = 0, stats_Offset = 0, Numcur = 0, Sizecur = 0,
      workCh = [], workCh_cap = 32, cmplCh = [], cmplCh_cap = 32,
      lastCh = False, stopCh = False, postCh = 0, callback = Some 7,
      time_idleOut = 2000000000, time_inSend = False, time_ticks = 2,
      sendoff_obj = Obj0, sendoff_off = 0, sendoff_dod = 0, header = [],
      term_terminated = False, term_err = None, term_reason = []\<rparr>"

definition ex_sys :: sys where
  "ex_sys = start ex_stream (\<lambda>_. 0)"

definition ex_obj :: "string \<Rightarrow> int \<Rightarrow> reader option \<Rightarrow> Obj" where
  "ex_obj name n rd =
     \<lparr>Hdr = Header0\<lparr>ObjName := name, ObjAttrs := (ObjAttrs Header0)\<lparr>Size := n\<rparr>\<rparr>,
      Reader = rd, Callback = None, CmplPtr = 0, prc = None\<rparr>"


section \<open>Properties\<close>

lemma wrap64_id: "- (2 ^ 63) \<le> i \<Longrightarrow> i < 2 ^ 63 \<Longrightarrow> wrap64 i = i"
  by (simp add: wrap64_def)

text \<open>
  C4. After an activation of the global flag at time \<open>t\<close> (a clock value whose deadline
  fits in an \<open>int64\<close>), \<open>active\<close> asked at time \<open>now\<close> answers true and leaves the
  state alone while \<open>now \<le> t + 30 s\<close>; once \<open>now > t + 30 s\<close> it answers false and
  clears the flag itself, with no call of \<open>deactivate\<close>.
\<close>

theorem globalGFN_deadline:
  assumes "- (2 ^ 63) \<le> t + getFromNeighAfterJoin" and "t + getFromNeighAfterJoin < 2 ^ 63"
  shows "globalGFN_active now (globalGFN_activate t gfn) =
           (if now \<le> t + 30 * 1000000000
            then (True, globalGFN_activate t gfn)
            else (False, (globalGFN_activate t gfn)\<lparr>lookupG := False\<rparr>))"
  using assms
  by (simp add: globalGFN_active_def globalGFN_activate_def globalGFN_deactivate_def
      wrap64_id getFromNeighAfterJoin_def)

theorem globalGFN_deadline_witness:
  "globalGFN_active 30000000005 (globalGFN_activate 5 \<lparr>lookupG = False, stopDeadline = 0\<rparr>)
     = (True, \<lparr>lookupG = True, stopDeadline = 30000000005\<rparr>)
   \<and> globalGFN_active 30000000006 (globalGFN_activate 5 \<lparr>lookupG = False, stopDeadline = 0\<rparr>)
     = (False, \<lparr>lookupG = False, stopDeadline = 30000000005\<rparr>)"
proof -
  have a: "- (2 ^ 63) \<le> (5::int) + getFromNeighAfterJoin"
    by (simp add: getFromNeighAfterJoin_def)
  have b: "(5::int) + getFromNeighAfterJoin < 2 ^ 63"
    by (simp add: getFromNeighAfterJoin_def)
  show ?thesis
    using globalGFN_deadline [OF a b, of 30000000005 "\<lparr>lookupG = False, stopDeadline = 0\<rparr>"]
      globalGFN_deadline [OF a b, of 30000000006 "\<lparr>lookupG = False, stopDeadline = 0\<rparr>"]
    by (simp add: globalGFN_activate_def wrap64_def getFromNeighAfterJoin_def)
qed

subsection \<open>Mountpath operations and the local flag\<close>

lemma localGFN_restore:
  "\<not> lookupL g \<Longrightarrow> localGFN_deactivate (localGFN_activate g) = g"
  by (simp add: localGFN_deactivate_def localGFN_activate_def)

lemma localGFN_keep:
  "lookupL g \<Longrightarrow> localGFN_activate g = g"
  by (simp add: localGFN_activate_def)

lemma enableMountpath_failed:
  assumes "mp_failed (fs_Enable mpath)"
  shows "gfn_local (snd (enableMountpath fs_Enable mpath t)) = gfn_local t
       \<and> mplog (snd (enableMountpath fs_Enable mpath t))
           = mplog t @ [GfnActivate, FsEnable mpath]
               @ (if lookupL (gfn_local t) then [] else [GfnDeactivate])"
  using assms
  by (cases "fs_Enable mpath")
    (auto simp: enableMountpath_def mp_failed_def gfn_local_Activate_def gfn_local_Deactivate_def
      localGFN_Activate_def localGFN_Deactivate_def localGFN_active_def
      localGFN_restore localGFN_keep)

lemma disableMountpath_failed:
  assumes "mp_failed (fs_Disable mpath)"
  shows "gfn_local (snd (disableMountpath fs_Disable mpath t)) = gfn_local t
       \<and> mplog (snd (disableMountpath fs_Disable mpath t))
           = mplog t @ [GfnActivate, FsDisable mpath]
               @ (if lookupL (gfn_local t) then [] else [GfnDeactivate])"
  using assms
  by (cases "fs_Disable mpath")
    (auto simp: disableMountpath_def mp_failed_def gfn_local_Activate_def gfn_local_Deactivate_def
      localGFN_Activate_def localGFN_Deactivate_def localGFN_active_def
      localGFN_restore localGFN_keep)

lemma addMountpath_failed:
  assumes "fs_Add mpath \<noteq> None"
  shows "gfn_local (snd (addMountpath fs_Add mpath t)) = gfn_local t
       \<and> mplog (snd (addMountpath fs_Add mpath t))
           = mplog t @ [GfnActivate, FsAdd mpath]
               @ (if lookupL (gfn_local t) then [] else [GfnDeactivate])"
  using assms
  by (auto simp: addMountpath_def gfn_local_Activate_def gfn_local_Deactivate_def
      localGFN_Activate_def localGFN_Deactivate_def localGFN_active_def
      localGFN_restore localGFN_keep)

lemma removeMountpath_failed:
  assumes "fs_Remove mpath \<noteq> None"
  shows "gfn_local (snd (removeMountpath fs_Remove mpath t)) = gfn_local t
       \<and> mplog (snd (removeMountpath fs_Remove mpath t))
           = mplog t @ [GfnActivate, FsRemove mpath]
               @ (if lookupL (gfn_local t) then [] else [GfnDeactivate])"
  using assms
  by (auto simp: removeMountpath_def gfn_local_Activate_def gfn_local_Deactivate_def
      localGFN_Activate_def localGFN_Deactivate_def localGFN_active_def
      localGFN_restore localGFN_keep)

lemma mountpath_activates_first:
  "(\<exists>rest. mplog (snd (enableMountpath fe mpath t)) = mplog t @ GfnActivate # FsEnable mpath # rest)
 \<and> (\<exists>rest. mplog (snd (disableMountpath fd mpath t)) = mplog t @ GfnActivate # FsDisable mpath # rest)
 \<and> (\<exists>rest. mplog (snd (addMountpath fa mpath t)) = mplog t @ GfnActivate # FsAdd mpath # rest)
 \<and> (\<exists>rest. mplog (snd (removeMountpath fr mpath t)) = mplog t @ GfnActivate # FsRemove mpath # rest)"
  by (cases "fe mpath"; cases "fd mpath")
    (simp add: enableMountpath_def disableMountpath_def addMountpath_def removeMountpath_def
      gfn_local_Activate_def gfn_local_Deactivate_def addMpathEvent_def delMpathEvent_def Let_def)

text \<open>
  C9. Each of the four mountpath operations activates the local flag and only then asks the
  filesystem registry (the log starts with the activation, then the registry call). When the
  registry reports an error, or for enable and disable no change, the flag is deactivated
  again exactly when it was not active before the call, so the flag ends with the value it
  had before the call.
\<close>

theorem mountpath_failure_restores_gfn:
  "(\<exists>rest. mplog (snd (enableMountpath fe mpath t)) = mplog t @ GfnActivate # FsEnable mpath # rest)
 \<and> (\<exists>rest. mplog (snd (disableMountpath fd mpath t)) = mplog t @ GfnActivate # FsDisable mpath # rest)
 \<and> (\<exists>rest. mplog (snd (addMountpath fa mpath t)) = mplog t @ GfnActivate # FsAdd mpath # rest)
 \<and> (\<exists>rest. mplog (snd (removeMountpath fr mpath t)) = mplog t @ GfnActivate # FsRemove mpath # rest)
 \<and> (mp_failed (fe mpath) \<longrightarrow>
       gfn_local (snd (enableMountpath fe mpath t)) = gfn_local t
     \<and> (GfnDeactivate \<in> set (drop (length (mplog t)) (mplog (snd (enableMountpath fe mpath t))))
          \<longleftrightarrow> \<not> lookupL (gfn_local t)))
 \<and> (mp_failed (fd mpath) \<longrightarrow>
       gfn_local (snd (disableMountpath fd mpath t)) = gfn_local t
     \<and> (GfnDeactivate \<in> set (drop (length (mplog t)) (mplog (snd (disableMountpath fd mpath t))))
          \<longleftrightarrow> \<not> lookupL (gfn_local t)))
 \<and> (fa mpath \<noteq> None \<longrightarrow>
       gfn_local (snd (addMountpath fa mpath t)) = gfn_local t
     \<and> (GfnDeactivate \<in> set (drop (length (mplog t)) (mplog (snd (addMountpath fa mpath t))))
          \<longleftrightarrow> \<not> lookupL (gfn_local t)))
 \<and> (fr mpath \<noteq> None \<longrightarrow>
       gfn_local (snd (removeMountpath fr mpath t)) = gfn_local t
     \<and> (GfnDeactivate \<in> set (drop (length (mplog t)) (mplog (snd (removeMountpath fr mpath t))))
          \<longleftrightarrow> \<not> lookupL (gfn_local t)))"
  using mountpath_activates_first [of fe mpath t fd fa fr]
    enableMountpath_failed [of fe mpath t] disableMountpath_failed [of fd mpath t]
    addMountpath_failed [of fa mpath t] removeMountpath_failed [of fr mpath t]
  by simp


theorem mountpath_failure_restores_gfn_witness:
  "mp_failed ((\<lambda>m. (False, Some ''no such mountpath'')) ''/data/mp1'')
 \<and> mp_failed ((\<lambda>m. (False, None)) ''/data/mp1'')
 \<and> (\<lambda>m. Some ''exists'') ''/data/mp1'' \<noteq> None
 \<and> gfn_local (snd (enableMountpath (\<lambda>m. (False, Some ''no such mountpath'')) ''/data/mp1''
       \<lparr>smap_Pmap = [], capUsed_oos = False, gfn_local = \<lparr>lookupL = False\<rparr>,
        gfn_global = \<lparr>lookupG = False, stopDeadline = 0\<rparr>, mplog = []\<rparr>))
     = \<lparr>lookupL = False\<rparr>
 \<and> gfn_local (snd (disableMountpath (\<lambda>m. (False, None)) ''/data/mp1''
       \<lparr>smap_Pmap = [], capUsed_oos = False, gfn_local = \<lparr>lookupL = True\<rparr>,
        gfn_global = \<lparr>lookupG = False, stopDeadline = 0\<rparr>, mplog = []\<rparr>))
     = \<lparr>lookupL = True\<rparr>
 \<and> gfn_local (snd (addMountpath (\<lambda>m. Some ''exists'') ''/data/mp1''
       \<lparr>smap_Pmap = [], capUsed_oos = False, gfn_local = \<lparr>lookupL = False\<rparr>,
        gfn_global = \<lparr>lookupG = False, stopDeadline = 0\<rparr>, mplog = []\<rparr>))
     = \<lparr>lookupL = False\<rparr>
 \<and> gfn_local (snd (removeMountpath (\<lambda>m. Some ''exists'') ''/data/mp1''
       \<lparr>smap_Pmap = [], capUsed_oos = False, gfn_local = \<lparr>lookupL = False\<rparr>,
        gfn_global = \<lparr>lookupG = False, stopDeadline = 0\<rparr>, mplog = []\<rparr>))
     = \<lparr>lookupL = False\<rparr>"
  using mountpath_failure_restores_gfn
    [of "\<lambda>m. (False, Some ''no such mountpath'')" "''/data/mp1''"
      "\<lparr>smap_Pmap = [], capUsed_oos = False, gfn_local = \<lparr>lookupL = False\<rparr>,
        gfn_global = \<lparr>lookupG = False, stopDeadline = 0\<rparr>, mplog = []\<rparr>"
      "\<lambda>m. (False, None)" "\<lambda>m. Some ''exists''" "\<lambda>m. Some ''exists''"]
    mountpath_failure_restores_gfn
    [of "\<lambda>m. (False, Some ''no such mountpath'')" "''/data/mp1''"
      "\<lparr>smap_Pmap = [], capUsed_oos = False, gfn_local = \<lparr>lookupL = True\<rparr>,
        gfn_global = \<lparr>lookupG = False, stopDeadline = 0\<rparr>, mplog = []\<rparr>"
      "\<lambda>m. (False, None)" "\<lambda>m. Some ''exists''" "\<lambda>m. Some ''exists''"]
  by (simp add: mp_failed_def)

subsection \<open>Proxy redirection\<close>

lemma verifyProxyRedirection_unknown:
  "\<not> known_gateway t r \<Longrightarrow>
     verifyProxyRedirection t r action =
       (False, [Invalmsghdlr (if proxyID r = [] then redirected_msg (Method r) action
                              else unknown_proxy_msg (Method r) action (proxyID r)) None])"
  by (auto simp: verifyProxyRedirection_def known_gateway_def Let_def)

lemma verifyProxyRedirection_known:
  "known_gateway t r \<Longrightarrow> verifyProxyRedirection t r action = (True, [])"
  by (auto simp: verifyProxyRedirection_def known_gateway_def Let_def)

text \<open>
  C3 as stated fails for GET: a GET with no proxy id, on a target whose Smap knows one
  gateway, runs \<open>getObject\<close>; the GET handler never calls \<open>verifyProxyRedirection\<close>.
\<close>

theorem httpobjget_unredirected_counterexample:
  "\<not> known_gateway
       \<lparr>smap_Pmap = [''p1''], capUsed_oos = False, gfn_local = \<lparr>lookupL = False\<rparr>,
        gfn_global = \<lparr>lookupG = False, stopDeadline = 0\<rparr>, mplog = []\<rparr>
       \<lparr>Method = ''GET'', proxyID = [], silent = False\<rparr>
 \<and> httpobjget
       \<lparr>checkRESTItems_ok = True, range_errstr = [], ReadBytes_errstr = None,
        Unmarshal_err = None, LOM_Init_errstr = [], Allow_err = None, Load_errstr = [],
        lom_StringEx = ''ais/b/o'', body_err = None, FastV4 = True, elapsed = ''7''\<rparr>
       \<lparr>smap_Pmap = [''p1''], capUsed_oos = False, gfn_local = \<lparr>lookupL = False\<rparr>,
        gfn_global = \<lparr>lookupG = False, stopDeadline = 0\<rparr>, mplog = []\<rparr>
       \<lparr>Method = ''GET'', proxyID = [], silent = False\<rparr>
     = [Body ''getObject'']"
  by (simp add: known_gateway_def httpobjget_def)

text \<open>
  C3, amended. A PUT whose request names no gateway of the current Smap never runs \<open>doPut\<close>;
  once the URL has parsed, the only reply is the one of \<open>verifyProxyRedirection\<close>: "expected
  to be redirected" when the proxy id is absent, "unknown proxy/gateway ID" when it is not in
  the Smap, both with the default status. The GET, DELETE and HEAD handlers do not verify the
  redirection. GET and DELETE never read the proxy id: they do the same whatever it is. HEAD
  reads it after the load, only to print it in a log line when the log is verbose
  (\<open>glog.FastV(4, ...)\<close>): whatever the proxy id, it does the same apart from the text of that
  line, and nothing depends on the proxy id when the log is not verbose.
\<close>

theorem httpobjput_verifies_redirection:
  assumes "\<not> known_gateway t r"
  shows "\<not> body_executed (httpobjput env t r)
       \<and> httpobjput env t r =
           (if checkRESTItems_ok env
            then [Invalmsghdlr (if proxyID r = [] then redirected_msg (Method r) (Method r)
                                else unknown_proxy_msg (Method r) (Method r) (proxyID r)) None]
            else [])
       \<and> httpobjget env t (r\<lparr>proxyID := p\<rparr>) = httpobjget env t r
       \<and> httpobjdelete env t (r\<lparr>proxyID := p\<rparr>) = httpobjdelete env t r
       \<and> unlogged (httpobjhead env t (r\<lparr>proxyID := p\<rparr>)) = unlogged (httpobjhead env t r)
       \<and> httpobjhead (env\<lparr>FastV4 := False\<rparr>) t (r\<lparr>proxyID := p\<rparr>)
           = httpobjhead (env\<lparr>FastV4 := False\<rparr>) t r
       \<and> httpobjhead (env\<lparr>FastV4 := True, checkRESTItems_ok := True, LOM_Init_errstr := [],
                              Load_errstr := [], body_err := None\<rparr>) t (r\<lparr>proxyID := p\<rparr>)
           = [Body ''Load'', Infof (Method r @ '' '' @ lom_StringEx env @ '' <= '' @ p)]"
  using verifyProxyRedirection_unknown [OF assms, of "Method r"]
  by (simp add: httpobjput_def body_executed_def httpobjget_def httpobjdelete_def
                httpobjhead_def unlogged_def invalidHandler_def Let_def split: option.splits)

theorem httpobjput_verifies_redirection_witness:
  "\<not> known_gateway
       \<lparr>smap_Pmap = [''p1''], capUsed_oos = False, gfn_local = \<lparr>lookupL = False\<rparr>,
        gfn_global = \<lparr>lookupG = False, stopDeadline = 0\<rparr>, mplog = []\<rparr>
       \<lparr>Method = ''PUT'', proxyID = [], silent = False\<rparr>
 \<and> httpobjput
       \<lparr>checkRESTItems_ok = True, range_errstr = [], ReadBytes_errstr = None,
        Unmarshal_err = None, LOM_Init_errstr = [], Allow_err = None, Load_errstr = [],
        lom_StringEx = ''ais/b/o'', body_err = None, FastV4 = True, elapsed = ''7''\<rparr>
       \<lparr>smap_Pmap = [''p1''], capUsed_oos = False, gfn_local = \<lparr>lookupL = False\<rparr>,
        gfn_global = \<lparr>lookupG = False, stopDeadline = 0\<rparr>, mplog = []\<rparr>
       \<lparr>Method = ''PUT'', proxyID = [], silent = False\<rparr>
     = [Invalmsghdlr ''PUT PUT requests are expected to be redirected'' None]
 \<and> httpobjhead
       \<lparr>checkRESTItems_ok = True, range_errstr = [], ReadBytes_errstr = None,
        Unmarshal_err = None, LOM_Init_errstr = [], Allow_err = None, Load_errstr = [],
        lom_StringEx = ''ais/b/o'', body_err = None, FastV4 = True, elapsed = ''7''\<rparr>
       \<lparr>smap_Pmap = [''p1''], capUsed_oos = False, gfn_local = \<lparr>lookupL = False\<rparr>,
        gfn_global = \<lparr>lookupG = False, stopDeadline = 0\<rparr>, mplog = []\<rparr>
       \<lparr>Method = ''HEAD'', proxyID = ''px'', silent = False\<rparr>
     = [Body ''Load'', Infof ''HEAD ais/b/o <= px'']"
proof -
  have h: "\<not> known_gateway
       \<lparr>smap_Pmap = [''p1''], capUsed_oos = False, gfn_local = \<lparr>lookupL = False\<rparr>,
        gfn_global = \<lparr>lookupG = False, stopDeadline = 0\<rparr>, mplog = []\<rparr>
       \<lparr>Method = ''PUT'', proxyID = [], silent = False\<rparr>"
    by (simp add: known_gateway_def)
  show ?thesis
    using h httpobjput_verifies_redirection [OF h, of
        "\<lparr>checkRESTItems_ok = True, range_errstr = [], ReadBytes_errstr = None,
        Unmarshal_err = None, LOM_Init_errstr = [], Allow_err = None, Load_errstr = [],
        lom_StringEx = ''ais/b/o'', body_err = None, FastV4 = True, elapsed = ''7''\<rparr>"]
    by (simp add: redirected_msg_def httpobjhead_def)
qed

subsection \<open>Cold GET\<close>

text \<open>
  C5 as stated fails when the backend's \<open>getobj\<close> fails: \<open>GetCold\<close> returns the error and
  releases the lock, and never calls \<open>os.Remove\<close> on the workfile (the deferred cleanup is
  installed after that return).
\<close>

theorem GetCold_getobj_failure_counterexample:
  "GetCold
     \<lparr>TryLock_ok = True, getobj_err = Some (''timeout'', 504), MvFile_err = None,
      Persist_err = None, Remove_err = None, lom_String = ''o'', lom_FQN = ''/mp/b/o'',
      workFQN = ''/mp/work/o''\<rparr> False
     = ((''o: GET failed, err: timeout'', 504), [LockX, CloudGetobj, UnlockX])
 \<and> OsRemove ''/mp/work/o'' \<notin> set (snd (GetCold
     \<lparr>TryLock_ok = True, getobj_err = Some (''timeout'', 504), MvFile_err = None,
      Persist_err = None, Remove_err = None, lom_String = ''o'', lom_FQN = ''/mp/b/o'',
      workFQN = ''/mp/work/o''\<rparr> False))"
  by (simp add: GetCold_def)

lemma GetCold_success:
  "\<not> prefetch \<Longrightarrow> getobj_err env = None \<Longrightarrow> MvFile_err env = None \<Longrightarrow> Persist_err env = None
   \<Longrightarrow> GetCold env prefetch =
         (([], 0), [LockX, CloudGetobj, MvFile, LomPersist, LomReCache, StatsAddMany, DowngradeLock])"
  by (simp add: GetCold_def GetCold_deferred_def)

lemma GetCold_late_failure:
  assumes "\<not> (prefetch \<and> \<not> TryLock_ok env)" and "getobj_err env = None"
    and "fst (fst (GetCold env prefetch)) \<noteq> []"
  shows "\<exists>pre post. snd (GetCold env prefetch) = pre @ [UnlockX, OsRemove (workFQN env)] @ post
           \<and> MvFile \<in> set pre \<and> UnlockX \<notin> set pre \<and> DowngradeLock \<notin> set (pre @ post)"
proof (cases "MvFile_err env")
  case (Some e)
  let ?l = "(if prefetch then [TryLockX True] else [LockX]) @ [CloudGetobj, MvFile, Fshc]"
  have "snd (GetCold env prefetch) = ?l @ [UnlockX, OsRemove (workFQN env)]
          @ (case Remove_err env of None \<Rightarrow> [] | Some _ \<Rightarrow> [Fshc])"
    using assms Some by (auto simp: GetCold_def GetCold_deferred_def)
  moreover have "MvFile \<in> set ?l \<and> UnlockX \<notin> set ?l
      \<and> DowngradeLock \<notin> set (?l @ (case Remove_err env of None \<Rightarrow> [] | Some _ \<Rightarrow> [Fshc]))"
    by (simp split: option.splits)
  ultimately show ?thesis by blast
next
  case None
  then obtain e where e: "Persist_err env = Some e" "e \<noteq> []"
    using assms by (cases "Persist_err env") (auto simp: GetCold_def GetCold_deferred_def)
  let ?l = "(if prefetch then [TryLockX True] else [LockX]) @ [CloudGetobj, MvFile, LomPersist]"
  have "snd (GetCold env prefetch) = ?l @ [UnlockX, OsRemove (workFQN env)]
          @ (case Remove_err env of None \<Rightarrow> [] | Some _ \<Rightarrow> [Fshc])"
    using assms None e by (auto simp: GetCold_def GetCold_deferred_def)
  moreover have "MvFile \<in> set ?l \<and> UnlockX \<notin> set ?l
      \<and> DowngradeLock \<notin> set (?l @ (case Remove_err env of None \<Rightarrow> [] | Some _ \<Rightarrow> [Fshc]))"
    by (simp split: option.splits)
  ultimately show ?thesis by blast
qed

lemma GetCold_getobj_failure:
  "\<not> (prefetch \<and> \<not> TryLock_ok env) \<Longrightarrow> getobj_err env = Some (e, c)
   \<Longrightarrow> GetCold env prefetch =
         ((lom_String env @ '': GET failed, err: '' @ e, c),
          (if prefetch then [TryLockX True] else [LockX]) @ [CloudGetobj, UnlockX])"
  by (auto simp: GetCold_def)

lemma GetCold_skip:
  "prefetch \<Longrightarrow> \<not> TryLock_ok env \<Longrightarrow> GetCold env prefetch = ((''skip'', 0), [TryLockX False])"
  by (simp add: GetCold_def)

text \<open>
  C5, amended. A cold GET that is not a prefetch and whose backend get, rename and persist
  all succeed takes the exclusive lock, renames the workfile over the final path, persists
  the LOM and downgrades the lock, never releasing it. When the backend get succeeded and
  the call reports a failure (a non-empty \<open>errstr\<close>: the rename failed, or the persist
  failed), the lock is released and \<open>os.Remove\<close> is called on the workfile, and the lock is
  not downgraded. When the backend get itself fails, the lock is released and the workfile
  is left to the backend: \<open>GetCold\<close> makes no further call. A prefetch that does not get the
  lock returns "skip" after the one \<open>TryLock\<close>.
\<close>

theorem GetCold_outcomes:
  "(\<not> prefetch \<and> getobj_err env = None \<and> MvFile_err env = None \<and> Persist_err env = None \<longrightarrow>
      GetCold env prefetch =
        (([], 0), [LockX, CloudGetobj, MvFile, LomPersist, LomReCache, StatsAddMany, DowngradeLock]))
 \<and> (\<not> (prefetch \<and> \<not> TryLock_ok env) \<and> getobj_err env = None
      \<and> fst (fst (GetCold env prefetch)) \<noteq> [] \<longrightarrow>
      (\<exists>pre post. snd (GetCold env prefetch) = pre @ [UnlockX, OsRemove (workFQN env)] @ post
           \<and> MvFile \<in> set pre \<and> UnlockX \<notin> set pre \<and> DowngradeLock \<notin> set (pre @ post)))
 \<and> (\<not> (prefetch \<and> \<not> TryLock_ok env) \<and> getobj_err env = Some (e, c) \<longrightarrow>
      GetCold env prefetch =
        ((lom_String env @ '': GET failed, err: '' @ e, c),
         (if prefetch then [TryLockX True] else [LockX]) @ [CloudGetobj, UnlockX]))
 \<and> (prefetch \<and> \<not> TryLock_ok env \<longrightarrow> GetCold env prefetch = ((''skip'', 0), [TryLockX False]))"
  using GetCold_success [of prefetch env] GetCold_late_failure [of prefetch env]
    GetCold_getobj_failure [of prefetch env e c] GetCold_skip [of prefetch env]
  by blast

theorem GetCold_outcomes_witness:
  "GetCold
     \<lparr>TryLock_ok = True, getobj_err = None, MvFile_err = None,
      Persist_err = None, Remove_err = None, lom_String = ''o'', lom_FQN = ''/mp/b/o'',
      workFQN = ''/mp/work/o''\<rparr> False
     = (([], 0), [LockX, CloudGetobj, MvFile, LomPersist, LomReCache, StatsAddMany, DowngradeLock])
 \<and> GetCold
     \<lparr>TryLock_ok = False, getobj_err = None, MvFile_err = None,
      Persist_err = None, Remove_err = None, lom_String = ''o'', lom_FQN = ''/mp/b/o'',
      workFQN = ''/mp/work/o''\<rparr> True
     = ((''skip'', 0), [TryLockX False])
 \<and> (\<exists>pre post. snd (GetCold
     \<lparr>TryLock_ok = True, getobj_err = None, MvFile_err = None,
      Persist_err = Some ''no space'', Remove_err = None, lom_String = ''o'', lom_FQN = ''/mp/b/o'',
      workFQN = ''/mp/work/o''\<rparr> False) = pre @ [UnlockX, OsRemove ''/mp/work/o''] @ post
      \<and> MvFile \<in> set pre \<and> UnlockX \<notin> set pre \<and> DowngradeLock \<notin> set (pre @ post))"
proof -
  have f: "fst (fst (GetCold
     \<lparr>TryLock_ok = True, getobj_err = None, MvFile_err = None,
      Persist_err = Some ''no space'', Remove_err = None, lom_String = ''o'', lom_FQN = ''/mp/b/o'',
      workFQN = ''/mp/work/o''\<rparr> False)) \<noteq> []"
    by (simp add: GetCold_def)
  show ?thesis
    using f
      GetCold_outcomes [of False "\<lparr>TryLock_ok = True, getobj_err = None, MvFile_err = None,
        Persist_err = None, Remove_err = None, lom_String = ''o'', lom_FQN = ''/mp/b/o'',
        workFQN = ''/mp/work/o''\<rparr>"]
      GetCold_outcomes [of True "\<lparr>TryLock_ok = False, getobj_err = None, MvFile_err = None,
        Persist_err = None, Remove_err = None, lom_String = ''o'', lom_FQN = ''/mp/b/o'',
        workFQN = ''/mp/work/o''\<rparr>"]
      GetCold_outcomes [of False "\<lparr>TryLock_ok = True, getobj_err = None, MvFile_err = None,
        Persist_err = Some ''no space'', Remove_err = None, lom_String = ''o'', lom_FQN = ''/mp/b/o'',
        workFQN = ''/mp/work/o''\<rparr>"]
    by simp
qed

subsection \<open>Deleting an object that is not there\<close>

text \<open>
  C10. For an object of an ais bucket (\<open>BckIsLocal\<close>) whose load goes through and finds no
  local object, \<open>objDelete\<close> returns \<open>nil\<close>, whether or not the call is an eviction: it takes
  and releases the lock and calls neither the backend nor the filesystem.
\<close>

theorem objDelete_absent_local:
  assumes "BckIsLocal lom" and "del_Load_errstr lom = []" and "\<not> lom_Exists lom"
  shows "objDelete lom evict = Some (None, [DelLockX, DelUnlockX])"
  using assms by (simp add: objDelete_def)

theorem objDelete_absent_local_witness:
  "objDelete \<lparr>BckIsLocal = True, del_Load_errstr = [], lom_Exists = False,
      deleteobj_err = Some ''unreachable'', del_Remove_err = Some (OtherError ''EIO''),
      del_String = ''o'', del_StringEx = ''ais/b/o''\<rparr> False
     = Some (None, [DelLockX, DelUnlockX])"
  using objDelete_absent_local [of "\<lparr>BckIsLocal = True, del_Load_errstr = [], lom_Exists = False,
      deleteobj_err = Some ''unreachable'', del_Remove_err = Some (OtherError ''EIO''),
      del_String = ''o'', del_StringEx = ''ais/b/o''\<rparr>" False]
  by simp

subsection \<open>The stream: how objects move\<close>

lemma idents_append [simp]: "idents (xs @ ys) = idents xs @ idents ys"
  by (simp add: idents_def)

lemma idents_Nil [simp]: "idents [] = []"
  by (simp add: idents_def)

lemma idents_Cons: "idents (x # xs) = (if real_obj x then ident x # idents xs else idents xs)"
  by (simp add: idents_def)

lemma IsLast_sizeObj [simp]: "IsLast (Hdr (sizeObj lastMarker))"
  by (simp add: IsLast_def sizeObj_def Obj0_def Header0_def)

lemma IsIdleTick_sizeObj [simp]: "IsIdleTick (Hdr (sizeObj tickMarker))"
  by (simp add: IsIdleTick_def sizeObj_def Obj0_def Header0_def)

lemma not_real_markers [simp]:
  "\<not> real_obj (sizeObj lastMarker)" "\<not> real_obj (sizeObj tickMarker)"
  by (simp_all add: real_obj_def)

lemma ident_Reader [simp]: "ident (obj\<lparr>Reader := r\<rparr>) = ident obj"
  by (simp add: ident_def)

lemma real_obj_Reader [simp]: "real_obj (obj\<lparr>Reader := r\<rparr>) = real_obj obj"
  by (simp add: real_obj_def)

lemma moved_refl [simp]: "moved s s"
  by (simp add: moved_def)

lemma moved_trans: "moved s s1 \<Longrightarrow> moved s1 s2 \<Longrightarrow> moved s s2"
  unfolding moved_def
  apply (elim exE conjE)
  subgoal for new1 new2
    by (rule exI [of _ "new1 @ new2"]) auto
  done

lemma moved_inSend [simp]: "moved s (s\<lparr>time_inSend := b\<rparr>)"
  by (simp add: moved_def inflight_def)

lemma eoObj_moved:
  assumes "eoObj e s = Some s'" and "Reader (sendoff_obj s) \<noteq> None"
    and "\<not> IsLast (Hdr (sendoff_obj s))"
  shows "moved s s' \<and> Reader (sendoff_obj s') = None"
proof -
  from assms(1) obtain err where
    c: "cmplCh s' = cmplCh s @ [(sendoff_obj s, err)]" and o: "sendoff_obj s' = Obj0"
    and w: "workCh s' = workCh s"
    and f: "term_terminated s' = term_terminated s" "term_err s' = term_err s"
      "term_reason s' = term_reason s" "callback s' = callback s" "stopCh s' = stopCh s"
      "Stream.more s' = Stream.more s"
    by (auto simp: eoObj_def Let_def split: if_splits)
  have i: "inflight s = [sendoff_obj s]" "inflight s' = []"
    using assms(2) o by (simp_all add: inflight_def Obj0_def)
  show ?thesis
    unfolding moved_def using c o w f i assms(3)
    by (auto simp: Obj0_def intro!: exI [of _ "[(sendoff_obj s, err)]"])
qed

lemma sendHdr_moved:
  "sendHdr k s = Returns x s' \<Longrightarrow> moved s s'"
  by (auto simp: sendHdr_def Let_def moved_def inflight_def split: if_splits)

lemma sendHdr_not_Blocks: "sendHdr k s \<noteq> Blocks s'"
  by (auto simp: sendHdr_def Let_def split: if_splits)


lemma sendData_Blocks: "sendData k s = Blocks s' \<Longrightarrow> s' = s"
  by (auto simp: sendData_def Let_def split: option.splits prod.splits if_splits)

lemma moved_reader:
  "Reader (sendoff_obj s) = Some r \<Longrightarrow>
     moved s (s\<lparr>sendoff_obj := (sendoff_obj s)\<lparr>Reader := Some r'\<rparr>, sendoff_off := n\<rparr>)"
  by (simp add: moved_def inflight_def idents_Cons)

lemma sendData_moved:
  assumes "sendData k s = Returns x s'" and "\<not> IsLast (Hdr (sendoff_obj s))"
  shows "moved s s'"
proof -
  from assms(1) obtain r where r: "Reader (sendoff_obj s) = Some r"
    by (auto simp: sendData_def split: option.splits)
  obtain d err r' where rd: "reader_Read r k = (d, err, r')"
    by (cases "reader_Read r k") auto
  define s1 where "s1 = s\<lparr>sendoff_obj := (sendoff_obj s)\<lparr>Reader := Some r'\<rparr>,
                      sendoff_off := sendoff_off s + int (length d)\<rparr>"
  have m1: "moved s s1"
    unfolding s1_def using r by (rule moved_reader)
  have p1: "Reader (sendoff_obj s1) \<noteq> None" "\<not> IsLast (Hdr (sendoff_obj s1))"
    using assms(2) by (simp_all add: s1_def)
  have "s' = s1 \<or> (\<exists>e. eoObj e s1 = Some s')"
    using assms(1) r rd
    by (auto simp: sendData_def Let_def s1_def split: option.splits if_splits)
  then show ?thesis
  proof
    assume "s' = s1" with m1 show ?thesis by simp
  next
    assume "\<exists>e. eoObj e s1 = Some s'"
    then obtain e where "eoObj e s1 = Some s'" ..
    from eoObj_moved [OF this p1] m1 show ?thesis
      by (blast intro: moved_trans)
  qed
qed

lemma inflight_workCh [simp]: "inflight (s\<lparr>workCh := q\<rparr>) = inflight s"
  by (simp add: inflight_def)

lemma inflight_header [simp]: "inflight (s\<lparr>header := h\<rparr>) = inflight s"
  by (simp add: inflight_def)

lemma inflight_sendoff_obj:
  "inflight (s\<lparr>sendoff_obj := obj\<rparr>) = (if Reader obj \<noteq> None then [obj] else [])"
  by (simp add: inflight_def)

lemma moved_dequeue_unreal:
  "\<not> real_obj obj \<Longrightarrow> idents (inflight s) = [] \<Longrightarrow>
     moved (s\<lparr>workCh := obj # rest\<rparr>) (s\<lparr>workCh := rest, sendoff_obj := obj\<rparr>)"
  by (simp add: moved_def inflight_sendoff_obj idents_Cons subset_insertI)

lemma moved_dequeue_real:
  "Reader obj \<noteq> None \<Longrightarrow> idents (inflight s) = [] \<Longrightarrow>
     moved (s\<lparr>workCh := obj # rest\<rparr>) (s\<lparr>workCh := rest, sendoff_obj := obj, header := h\<rparr>)"
  by (simp add: moved_def inflight_sendoff_obj idents_Cons subset_insertI)

lemma moved_header:
  "moved (s\<lparr>workCh := rest, sendoff_obj := obj\<rparr>) (s\<lparr>workCh := rest, sendoff_obj := obj, header := h\<rparr>)"
  by (simp add: moved_def)

lemma Read_select_moved:
  assumes "Read_select H p k q s = Returns x s' \<or> Read_select H p k q s = Blocks s'"
    and "\<forall>ob\<in>set q. real_obj ob \<longrightarrow> Reader ob \<noteq> None"
    and "idents (inflight s) = []"
  shows "moved (s\<lparr>workCh := q\<rparr>) s'"
  using assms
proof (induction q arbitrary: s p)
  case Nil
  then show ?case by (auto split: if_splits)
next
  case (Cons obj rest)
  show ?case
  proof (cases "stopCh s \<and> p = 0")
    case True
    with Cons.prems(1) show ?thesis by auto
  next
    case False
    define s1 where "s1 = s\<lparr>workCh := rest, sendoff_obj := obj\<rparr>"
    show ?thesis
    proof (cases "IsIdleTick (Hdr obj)")
      case tick: True
      then have nr: "\<not> real_obj obj" by (simp add: real_obj_def)
      have m1: "moved (s\<lparr>workCh := obj # rest\<rparr>) s1"
        unfolding s1_def using nr Cons.prems(3) by (rule moved_dequeue_unreal)
      have i1: "idents (inflight s1) = []"
        using nr by (simp add: s1_def inflight_def idents_Cons)
      show ?thesis
      proof (cases "rest = []")
        case True
        with Cons.prems(1) False tick have "s' = s1"
          by (auto simp: s1_def deactivate_def Let_def)
        with m1 show ?thesis by simp
      next
        case nonempty: False
        with Cons.prems(1) False tick
        have "Read_select H (p - 1) k rest s1 = Returns x s' \<or> Read_select H (p - 1) k rest s1 = Blocks s'"
          by (auto simp: s1_def Let_def)
        from Cons.IH [OF this _ i1] Cons.prems(2)
        have "moved (s1\<lparr>workCh := rest\<rparr>) s'" by simp
        moreover have "s1\<lparr>workCh := rest\<rparr> = s1" by (simp add: s1_def)
        ultimately show ?thesis using m1 by (auto intro: moved_trans)
      qed
    next
      case notick: False
      with Cons.prems(1) False obtain h where
        h: "insHeader H (Hdr obj) = Some h" and sh: "sendHdr k (s1\<lparr>header := h\<rparr>) = Returns x s'"
        by (auto simp: s1_def Let_def sendHdr_not_Blocks split: option.splits)
      have m2: "moved (s1\<lparr>header := h\<rparr>) s'" using sh by (rule sendHdr_moved)
      have m1: "moved (s\<lparr>workCh := obj # rest\<rparr>) (s1\<lparr>header := h\<rparr>)"
      proof (cases "real_obj obj")
        case True
        with Cons.prems(2) have "Reader obj \<noteq> None" by simp
        from moved_dequeue_real [OF this Cons.prems(3)] show ?thesis by (simp add: s1_def)
      next
        case False
        from moved_dequeue_unreal [OF this Cons.prems(3), of rest]
          moved_header [where s = s and rest = rest and obj = obj and h = h]
        show ?thesis by (auto simp: s1_def intro: moved_trans)
      qed
      from m1 m2 show ?thesis by (rule moved_trans)
    qed
  qed
qed

lemma Read_moved:
  assumes "Read H p k s = Returns x s' \<or> Read H p k s = Blocks s'"
    and "\<forall>ob\<in>set (workCh s). real_obj ob \<longrightarrow> Reader ob \<noteq> None"
  shows "moved s s'"
proof -
  define t where "t = s\<lparr>time_inSend := True\<rparr>"
  have mt: "moved s t" by (simp add: t_def)
  have wt: "workCh t = workCh s" "sendoff_obj t = sendoff_obj s" by (simp_all add: t_def)
  have tw: "t\<lparr>workCh := workCh s\<rparr> = t" by (simp add: t_def)
  show ?thesis
  proof (cases "Reader (sendoff_obj s) \<noteq> None")
    case False
    then have i: "idents (inflight t) = []" by (simp add: inflight_def t_def)
    from assms(1) False
    have "Read_select H p k (workCh t) t = Returns x s' \<or> Read_select H p k (workCh t) t = Blocks s'"
      by (simp add: Read_def t_def Let_def)
    from Read_select_moved [OF this _ i] assms(2) wt tw have "moved t s'" by simp
    with mt show ?thesis by (blast intro: moved_trans)
  next
    case rd: True
    show ?thesis
    proof (cases "sendoff_dod s = 0")
      case True
      with assms(1) rd have "sendHdr k t = Returns x s'"
        by (auto simp: Read_def t_def Let_def sendHdr_not_Blocks)
      from sendHdr_moved [OF this] mt show ?thesis by (blast intro: moved_trans)
    next
      case dod: False
      show ?thesis
      proof (cases "IsHeaderOnly (Hdr (sendoff_obj s))")
        case False
        then have nl: "\<not> IsLast (Hdr (sendoff_obj t))" by (simp add: IsHeaderOnly_def t_def)
        from assms(1) rd dod False
        have "sendData k t = Returns x s' \<or> sendData k t = Blocks s'"
          by (simp add: Read_def t_def Let_def)
        then show ?thesis
        proof
          assume "sendData k t = Returns x s'"
          from sendData_moved [OF this nl] mt show ?thesis by (blast intro: moved_trans)
        next
          assume "sendData k t = Blocks s'"
          then have "s' = t" by (rule sendData_Blocks)
          with mt show ?thesis by simp
        qed
      next
        case ho: True
        show ?thesis
        proof (cases "IsLast (Hdr (sendoff_obj s))")
          case True
          with assms(1) rd dod ho have "s' = t" by (auto simp: Read_def t_def Let_def)
          with mt show ?thesis by simp
        next
          case nl: False
          show ?thesis
          proof (cases "eoObj None t")
            case None
            with assms(1) rd dod ho nl have "s' = t" by (auto simp: Read_def t_def Let_def)
            with mt show ?thesis by simp
          next
            case (Some t1)
            from eoObj_moved [OF Some] rd nl wt
            have m1: "moved t t1" and r1: "Reader (sendoff_obj t1) = None" by simp_all
            then have i1: "idents (inflight t1) = []" by (simp add: inflight_def)
            have w1: "\<forall>ob\<in>set (workCh t1). real_obj ob \<longrightarrow> Reader ob \<noteq> None"
              using m1 assms(2) wt by (auto simp: moved_def)
            from assms(1) rd dod ho nl Some
            have "Read_select H p k (workCh t1) t1 = Returns x s'
                \<or> Read_select H p k (workCh t1) t1 = Blocks s'"
              by (simp add: Read_def t_def Let_def)
            from Read_select_moved [OF this w1 i1] have "moved t1 s'" by simp
            with mt m1 show ?thesis by (blast intro: moved_trans)
          qed
        qed
      qed
    qed
  qed
qed


subsection \<open>Steps\<close>

lemma sys_more:
  "Stream.more (s'::sys) = Stream.more s \<Longrightarrow>
     sl s' = sl s \<and> cl_done s' = cl_done s \<and> rc_heap s' = rc_heap s \<and> sq_log s' = sq_log s
   \<and> scq_log s' = scq_log s \<and> done_log s' = done_log s \<and> wire s' = wire s"
  by (cases s, cases s') simp

lemma objDone_ok:
  "objDone scb obj err heap = Some (evs, heap') \<Longrightarrow> completion_ok scb obj err evs"
  by (auto simp: objDone_def completion_ok_def callback_of_def Let_def
      split: if_splits option.splits)

lemma step_ASend:
  assumes "step H (ASend obj) s = Some s'"
  shows "sl s' = sl s \<and> cl_done s' = cl_done s \<and> term_terminated s' = term_terminated s
       \<and> cmplCh s' = cmplCh s \<and> inflight s' = inflight s \<and> scq_log s' = scq_log s
       \<and> done_log s' = done_log s \<and> callback s' = callback s
       \<and> (\<exists>new. workCh s' = workCh s @ new \<and> sq_log s' = sq_log s @ new
             \<and> (\<forall>ob\<in>set new. Reader ob \<noteq> None) \<and> (term_terminated s \<longrightarrow> new = []))"
  using assms
  by (auto simp: Send_def Let_def inflight_def split: outcome.splits if_splits)

lemma step_AStop:
  assumes "step H AStop s = Some s'"
  shows "s' = s\<lparr>stopCh := True\<rparr>"
  using assms by (simp add: Stop_def)

lemma step_ATick:
  assumes "step H ATick s = Some s'"
  shows "s' = s\<lparr>sessST := inactive, workCh := workCh s @ [sizeObj tickMarker]\<rparr>"
  using assms by (simp add: idle_tick_def split: if_splits)

lemma step_ALoop:
  assumes "step H ALoop s = Some s'"
  shows "sl s = SL_Top \<and> (s' = (doRequest s)\<lparr>sl := SL_InReq\<rparr> \<or> s' = s\<lparr>sl := SL_IsNextReq\<rparr>)"
  using assms by (auto split: if_splits)

lemma step_ARead:
  assumes "step H (ARead p k) s = Some s'" and "inv_readers s"
  shows "sl s = SL_InReq \<and> sl s' = SL_InReq \<and> cl_done s' = cl_done s
       \<and> sq_log s' = sq_log s \<and> done_log s' = done_log s
       \<and> term_terminated s' = term_terminated s \<and> callback s' = callback s
       \<and> set (workCh s') \<subseteq> set (workCh s)
       \<and> (\<exists>new. cmplCh s' = cmplCh s @ new \<and> scq_log s' = scq_log s @ new
             \<and> (\<forall>c\<in>set new. \<not> IsLast (Hdr (fst c)))
             \<and> idents (map fst new) @ idents (inflight s') @ idents (workCh s')
                 = idents (inflight s) @ idents (workCh s))"
proof -
  from assms(1) have pc: "sl s = SL_InReq" by (auto split: if_splits)
  from assms(1) pc obtain x t where
    r: "Read H p k s = Returns x t \<or> Read H p k s = Blocks t"
    and s': "s' = t\<lparr>scq_log := scq_log t @ drop (length (cmplCh s)) (cmplCh t), wire := wire s'\<rparr>"
    by (auto split: outcome.splits)
  from Read_moved [OF r] assms(2) have m: "moved s t" by (simp add: inv_readers_def)
  then obtain new where n: "cmplCh t = cmplCh s @ new"
    "\<forall>c\<in>set new. \<not> IsLast (Hdr (fst c))"
    "idents (map fst new) @ idents (inflight t) @ idents (workCh t)
       = idents (inflight s) @ idents (workCh s)"
    "set (workCh t) \<subseteq> set (workCh s)" "term_terminated t = term_terminated s"
    "callback t = callback s" "Stream.more t = Stream.more s"
    unfolding moved_def by blast
  from sys_more [OF n(7)] have e: "sl t = sl s" "cl_done t = cl_done s" "sq_log t = sq_log s"
    "scq_log t = scq_log s" "done_log t = done_log s" by simp_all
  have i: "inflight s' = inflight t" by (subst s') (simp add: inflight_def)
  have "cmplCh s' = cmplCh s @ new \<and> scq_log s' = scq_log s @ new"
    by (subst (1 2) s') (simp add: n(1) e)
  moreover have "workCh s' = workCh t" "sl s' = sl t" "cl_done s' = cl_done t"
    "sq_log s' = sq_log t" "done_log s' = done_log t" "term_terminated s' = term_terminated t"
    "callback s' = callback t"
    by (subst s', simp)+
  ultimately show ?thesis using n e pc i by auto
qed

lemma step_ADoReturns:
  assumes "step H (ADoReturns r) s = Some s'"
  shows "sl s = SL_InReq \<and> (s' = s\<lparr>sl := SL_IsNextReq\<rparr>
           \<or> (\<exists>e. s' = s\<lparr>term_reason := reasonError, term_err := Some e, sl := SL_Terminate\<rparr>))"
  using assms by (auto split: if_splits option.splits)

lemma step_ANext:
  assumes "step H (ANext c) s = Some s'"
  shows "sl s = SL_IsNextReq
       \<and> (\<exists>r n st pc. s' = s\<lparr>term_reason := r, postCh := n, sessST := st, sl := pc\<rparr>
             \<and> pc \<in> {SL_Top, SL_Terminate})"
proof -
  from assms have pc: "sl s = SL_IsNextReq" by (auto split: if_splits)
  have u: "s\<lparr>term_reason := term_reason s, postCh := postCh s, sessST := sessST s\<rparr> = s"
    by simp
  show ?thesis
  proof (cases c)
    case PickLast
    with assms pc have "s' = s\<lparr>term_reason := endOfStream, postCh := postCh s,
        sessST := sessST s, sl := SL_Terminate\<rparr>"
      by (auto simp: isNextReq_def split: if_splits)
    with pc show ?thesis by blast
  next
    case PickStop
    with assms pc have "s' = s\<lparr>term_reason := reasonStopped, postCh := postCh s,
        sessST := sessST s, sl := SL_Terminate\<rparr>"
      by (auto simp: isNextReq_def split: if_splits)
    with pc show ?thesis by blast
  next
    case PickPost
    with assms pc have "s' = s\<lparr>term_reason := term_reason s, postCh := postCh s - 1,
        sessST := active, sl := SL_Top\<rparr>"
      by (auto simp: isNextReq_def split: if_splits)
    with pc show ?thesis by blast
  qed
qed

lemma step_ATerminate:
  assumes "step H ATerminate s = Some s'"
  shows "sl s = SL_Terminate \<and> \<not> term_terminated s
       \<and> (\<exists>pc. pc \<in> {SL_Wait, SL_Exit}
           \<and> s' = s\<lparr>term_terminated := True, stopCh := True,
                 cmplCh := cmplCh s @ [(sizeObj lastMarker, term_err s)],
                 scq_log := scq_log s @ [(sizeObj lastMarker, term_err s)], sl := pc\<rparr>)"
  using assms
  by (auto simp: terminate_def Stop_def Let_def split: if_splits outcome.splits)

lemma step_ACmpl:
  assumes "step H ACmpl s = Some s'"
  shows "\<not> cl_done s \<and> (\<exists>obj err rest. cmplCh s = (obj, err) # rest
           \<and> ((IsLast (Hdr obj) \<and> s' = s\<lparr>cmplCh := rest, cl_done := True\<rparr>)
              \<or> (\<not> IsLast (Hdr obj)
                 \<and> (\<exists>evs heap'. completion_ok (callback s) obj err evs
                     \<and> s' = s\<lparr>cmplCh := rest, rc_heap := heap',
                               done_log := done_log s @ [(obj, err, evs)]\<rparr>))))"
proof -
  from assms have nd: "\<not> cl_done s" by (auto split: if_splits)
  with assms obtain obj err rest where c: "cmplCh s = (obj, err) # rest"
    by (cases "cmplCh s") auto
  show ?thesis
  proof (cases "IsLast (Hdr obj)")
    case True
    with assms nd c show ?thesis by simp
  next
    case False
    with assms nd c obtain evs heap' where
      o: "objDone (callback s) obj err (rc_heap s) = Some (evs, heap')"
      and s': "s' = s\<lparr>cmplCh := rest, rc_heap := heap', done_log := done_log s @ [(obj, err, evs)]\<rparr>"
      by (auto simp: complete_def split: option.splits)
    from objDone_ok [OF o] s' nd c False show ?thesis by blast
  qed
qed

lemma step_AWait:
  assumes "step H AWait s = Some s'"
  shows "sl s = SL_Wait \<and> cl_done s \<and> s' = s\<lparr>sl := SL_Inflight\<rparr>"
  using assms by (auto split: if_splits)

lemma step_AInflight:
  assumes "step H AInflight s = Some s'"
  shows "sl s = SL_Inflight
       \<and> ((Reader (sendoff_obj s) \<noteq> None
           \<and> (\<exists>evs heap'. completion_ok (callback s) (sendoff_obj s) (term_err s) evs
                 \<and> s' = s\<lparr>sl := SL_DrainSQ, rc_heap := heap',
                           done_log := done_log s @ [(sendoff_obj s, term_err s, evs)]\<rparr>))
          \<or> (Reader (sendoff_obj s) = None \<and> s' = s\<lparr>sl := SL_DrainSQ\<rparr>))"
proof -
  from assms have pc: "sl s = SL_Inflight" by (auto split: if_splits)
  show ?thesis
  proof (cases "Reader (sendoff_obj s) = None")
    case True
    with assms pc show ?thesis by simp
  next
    case False
    with assms pc obtain evs heap' where
      o: "objDone (callback s) (sendoff_obj s) (term_err s) (rc_heap s) = Some (evs, heap')"
      and s': "s' = s\<lparr>sl := SL_DrainSQ, rc_heap := heap',
                       done_log := done_log s @ [(sendoff_obj s, term_err s, evs)]\<rparr>"
      by (auto simp: complete_def split: option.splits)
    from objDone_ok [OF o] s' pc False show ?thesis by blast
  qed
qed

lemma step_ADrainSQ:
  assumes "step H ADrainSQ s = Some s'"
  shows "sl s = SL_DrainSQ \<and> (\<exists>obj rest evs heap'. workCh s = obj # rest
           \<and> completion_ok (callback s) obj (term_err s) evs
           \<and> s' = s\<lparr>workCh := rest, rc_heap := heap',
                     done_log := done_log s @ [(obj, term_err s, evs)]\<rparr>)"
proof -
  from assms have pc: "sl s = SL_DrainSQ" by (auto split: if_splits)
  with assms obtain obj rest where w: "workCh s = obj # rest"
    by (cases "workCh s") auto
  with assms pc obtain evs heap' where
    o: "objDone (callback s) obj (term_err s) (rc_heap s) = Some (evs, heap')"
    and s': "s' = s\<lparr>workCh := rest, rc_heap := heap',
                     done_log := done_log s @ [(obj, term_err s, evs)]\<rparr>"
    by (auto simp: complete_def split: option.splits)
  from objDone_ok [OF o] s' pc w show ?thesis by blast
qed


subsection \<open>Invariants\<close>

lemma inflight_eqI: "sendoff_obj s' = sendoff_obj s \<Longrightarrow> inflight s' = inflight s"
  by (simp add: inflight_def)

lemma inv_readers_step:
  assumes "inv_readers s" and "step H a s = Some s'"
  shows "inv_readers s'"
proof (cases a)
  case (ASend obj)
  from step_ASend [OF assms(2) [unfolded ASend]] assms(1) show ?thesis by (auto simp: inv_readers_def)
next
  case AStop
  from step_AStop [OF assms(2) [unfolded AStop]] assms(1) show ?thesis by (simp add: inv_readers_def)
next
  case ATick
  from step_ATick [OF assms(2) [unfolded ATick]] assms(1) show ?thesis by (simp add: inv_readers_def)
next
  case ALoop
  from step_ALoop [OF assms(2) [unfolded ALoop]] assms(1) show ?thesis by (auto simp: inv_readers_def doRequest_def)
next
  case (ARead p k)
  from step_ARead [OF assms(2) [unfolded ARead]] assms(1) show ?thesis by (auto simp: inv_readers_def)
next
  case (ADoReturns r)
  from step_ADoReturns [OF assms(2) [unfolded ADoReturns]] assms(1) show ?thesis by (auto simp: inv_readers_def)
next
  case (ANext c)
  from step_ANext [OF assms(2) [unfolded ANext]] assms(1) show ?thesis by (auto simp: inv_readers_def)
next
  case ATerminate
  from step_ATerminate [OF assms(2) [unfolded ATerminate]] assms(1) show ?thesis by (auto simp: inv_readers_def)
next
  case ACmpl
  from step_ACmpl [OF assms(2) [unfolded ACmpl]] assms(1) show ?thesis by (auto simp: inv_readers_def)
next
  case AWait
  from step_AWait [OF assms(2) [unfolded AWait]] assms(1) show ?thesis by (auto simp: inv_readers_def)
next
  case AInflight
  from step_AInflight [OF assms(2) [unfolded AInflight]] assms(1) show ?thesis by (auto simp: inv_readers_def)
next
  case ADrainSQ
  from step_ADrainSQ [OF assms(2) [unfolded ADrainSQ]] assms(1) show ?thesis by (auto simp: inv_readers_def)
qed

lemma before_terminate_sl [simp]:
  "before_terminate (s\<lparr>sl := pc\<rparr>) = (pc \<in> {SL_Top, SL_InReq, SL_IsNextReq, SL_Terminate})"
  by (simp add: before_terminate_def)

lemma inflight_updates [simp]:
  "inflight (s\<lparr>stopCh := a1\<rparr>) = inflight s"
  "inflight (s\<lparr>sessST := a2\<rparr>) = inflight s"
  "inflight (s\<lparr>term_reason := a4\<rparr>) = inflight s"
  "inflight (s\<lparr>term_err := a5\<rparr>) = inflight s"
  "inflight (s\<lparr>term_terminated := a6\<rparr>) = inflight s"
  "inflight (s\<lparr>cmplCh := a7\<rparr>) = inflight s"
  "inflight (s\<lparr>postCh := a8\<rparr>) = inflight s"
  "inflight (s\<lparr>Numcur := a9\<rparr>) = inflight s"
  "inflight (s\<lparr>Sizecur := a10\<rparr>) = inflight s"
  by (simp_all add: inflight_def)

lemma inflight_sys_updates [simp]:
  "inflight ((t::sys)\<lparr>sl := b1\<rparr>) = inflight t"
  "inflight (t\<lparr>cl_done := b2\<rparr>) = inflight t"
  "inflight (t\<lparr>rc_heap := b3\<rparr>) = inflight t"
  "inflight (t\<lparr>sq_log := b4\<rparr>) = inflight t"
  "inflight (t\<lparr>scq_log := b5\<rparr>) = inflight t"
  "inflight (t\<lparr>done_log := b6\<rparr>) = inflight t"
  "inflight (t\<lparr>wire := b7\<rparr>) = inflight t"
  by (simp_all add: inflight_def)

lemma inv_phase_cong:
  "sl s' = sl s \<Longrightarrow> term_terminated s' = term_terminated s \<Longrightarrow> cl_done s' = cl_done s
   \<Longrightarrow> cmplCh s' = cmplCh s \<Longrightarrow> inv_phase s' = inv_phase s"
  by (simp add: inv_phase_def before_terminate_def)

lemma inv_phase_beforeI:
  "before_terminate s \<Longrightarrow> \<not> term_terminated s \<Longrightarrow> \<not> cl_done s
   \<Longrightarrow> \<forall>c\<in>set (cmplCh s). \<not> IsLast (Hdr (fst c)) \<Longrightarrow> inv_phase s"
  by (auto simp: inv_phase_def before_terminate_def)

lemma inv_phase_beforeD:
  "inv_phase s \<Longrightarrow> before_terminate s \<Longrightarrow>
     \<not> term_terminated s \<and> \<not> cl_done s \<and> (\<forall>c\<in>set (cmplCh s). \<not> IsLast (Hdr (fst c)))"
  by (simp add: inv_phase_def)

lemma inv_phase_afterI:
  "\<not> before_terminate s \<Longrightarrow> term_terminated s
   \<Longrightarrow> (cl_done s \<Longrightarrow> cmplCh s = [])
   \<Longrightarrow> (\<not> cl_done s \<Longrightarrow> \<exists>pre m. cmplCh s = pre @ [m] \<and> IsLast (Hdr (fst m))
                 \<and> (\<forall>c\<in>set pre. \<not> IsLast (Hdr (fst c))))
   \<Longrightarrow> (sl s \<in> {SL_Inflight, SL_DrainSQ} \<Longrightarrow> cl_done s) \<Longrightarrow> inv_phase s"
  unfolding inv_phase_def by (cases "cl_done s") auto

lemma inv_phase_afterD:
  assumes "inv_phase s" and "\<not> before_terminate s"
  shows "term_terminated s" and "cl_done s \<Longrightarrow> cmplCh s = []"
    and "\<not> cl_done s \<Longrightarrow> \<exists>pre m. cmplCh s = pre @ [m] \<and> IsLast (Hdr (fst m))
                 \<and> (\<forall>c\<in>set pre. \<not> IsLast (Hdr (fst c)))"
  using assms unfolding inv_phase_def by (simp_all split: if_splits)

lemma inv_phase_drainD:
  "inv_phase s \<Longrightarrow> sl s \<in> {SL_Inflight, SL_DrainSQ} \<Longrightarrow> cl_done s \<and> cmplCh s = []"
  unfolding inv_phase_def before_terminate_def by (auto split: if_splits)

lemma inv_phase_ASend:
  assumes st: "step H (ASend obj) s = Some s'" and "inv_phase s"
  shows "inv_phase s'"
proof -
  from step_ASend [OF st] have "inv_phase s' = inv_phase s"
    by (intro inv_phase_cong) simp_all
  with assms(2) show ?thesis by simp
qed

lemma inv_phase_AStop:
  assumes st: "step H AStop s = Some s'" and "inv_phase s"
  shows "inv_phase s'"
proof -
  from step_AStop [OF st] have "inv_phase s' = inv_phase s"
    by (intro inv_phase_cong) simp_all
  with assms(2) show ?thesis by simp
qed

lemma inv_phase_ATick:
  assumes st: "step H ATick s = Some s'" and "inv_phase s"
  shows "inv_phase s'"
proof -
  from step_ATick [OF st] have "inv_phase s' = inv_phase s"
    by (intro inv_phase_cong) simp_all
  with assms(2) show ?thesis by simp
qed

lemma inv_phase_ALoop:
  assumes st: "step H ALoop s = Some s'" and "inv_phase s"
  shows "inv_phase s'"
proof -
  from step_ALoop [OF st] have pc: "sl s = SL_Top"
    and e: "s' = (doRequest s)\<lparr>sl := SL_InReq\<rparr> \<or> s' = s\<lparr>sl := SL_IsNextReq\<rparr>" by simp_all
  from pc have b: "before_terminate s" by (simp add: before_terminate_def)
  note d = inv_phase_beforeD [OF assms(2) b]
  from e show ?thesis
  proof
    assume "s' = (doRequest s)\<lparr>sl := SL_InReq\<rparr>"
    with d show ?thesis by (intro inv_phase_beforeI) (simp_all add: doRequest_def)
  next
    assume "s' = s\<lparr>sl := SL_IsNextReq\<rparr>"
    with d show ?thesis by (intro inv_phase_beforeI) simp_all
  qed
qed

lemma inv_phase_ARead:
  assumes st: "step H (ARead p k) s = Some s'" and "inv_phase s" and "inv_readers s"
  shows "inv_phase s'"
proof -
  from step_ARead [OF st assms(3)] obtain new where
    r: "sl s = SL_InReq" "sl s' = SL_InReq" "cl_done s' = cl_done s"
      "term_terminated s' = term_terminated s" "cmplCh s' = cmplCh s @ new"
      "\<forall>c\<in>set new. \<not> IsLast (Hdr (fst c))"
    by blast
  from r have b: "before_terminate s" "before_terminate s'" by (simp_all add: before_terminate_def)
  note d = inv_phase_beforeD [OF assms(2) b(1)]
  from b(2) show ?thesis
    by (rule inv_phase_beforeI) (use d r in auto)
qed

lemma inv_phase_ADoReturns:
  assumes st: "step H (ADoReturns r) s = Some s'" and "inv_phase s"
  shows "inv_phase s'"
proof -
  from step_ADoReturns [OF st] have pc: "sl s = SL_InReq"
    and e: "s' = s\<lparr>sl := SL_IsNextReq\<rparr>
           \<or> (\<exists>e. s' = s\<lparr>term_reason := reasonError, term_err := Some e, sl := SL_Terminate\<rparr>)"
    by simp_all
  from pc have b: "before_terminate s" by (simp add: before_terminate_def)
  note d = inv_phase_beforeD [OF assms(2) b]
  from e show ?thesis
  proof
    assume "s' = s\<lparr>sl := SL_IsNextReq\<rparr>"
    with d show ?thesis by (intro inv_phase_beforeI) simp_all
  next
    assume "\<exists>e. s' = s\<lparr>term_reason := reasonError, term_err := Some e, sl := SL_Terminate\<rparr>"
    then obtain e where "s' = s\<lparr>term_reason := reasonError, term_err := Some e, sl := SL_Terminate\<rparr>" ..
    with d show ?thesis by (intro inv_phase_beforeI) simp_all
  qed
qed

lemma inv_phase_ANext:
  assumes st: "step H (ANext c) s = Some s'" and "inv_phase s"
  shows "inv_phase s'"
proof -
  from step_ANext [OF st] obtain r n st' pc where pc: "sl s = SL_IsNextReq"
    and e: "s' = s\<lparr>term_reason := r, postCh := n, sessST := st', sl := pc\<rparr>"
    and p: "pc \<in> {SL_Top, SL_Terminate}" by blast
  from pc have b: "before_terminate s" by (simp add: before_terminate_def)
  note d = inv_phase_beforeD [OF assms(2) b]
  from d e p show ?thesis by (intro inv_phase_beforeI) auto
qed

lemma inv_phase_ATerminate:
  assumes st: "step H ATerminate s = Some s'" and "inv_phase s"
  shows "inv_phase s'"
proof -
  from step_ATerminate [OF st] obtain pc where pc: "sl s = SL_Terminate"
    and p: "pc \<in> {SL_Wait, SL_Exit}"
    and e: "s' = s\<lparr>term_terminated := True, stopCh := True,
                 cmplCh := cmplCh s @ [(sizeObj lastMarker, term_err s)],
                 scq_log := scq_log s @ [(sizeObj lastMarker, term_err s)], sl := pc\<rparr>"
    by blast
  from pc have b: "before_terminate s" by (simp add: before_terminate_def)
  note d = inv_phase_beforeD [OF assms(2) b]
  have c: "cmplCh s' = cmplCh s @ [(sizeObj lastMarker, term_err s)]" "cl_done s' = cl_done s"
    "sl s' = pc" "term_terminated s'"
    by (simp_all add: e)
  show ?thesis
  proof (rule inv_phase_afterI)
    show "\<not> before_terminate s'" using p c(3) by (auto simp: before_terminate_def)
    show "term_terminated s'" by (rule c(4))
    show "cmplCh s' = []" if "cl_done s'" using that d c(2) by simp
    show "\<exists>pre m. cmplCh s' = pre @ [m] \<and> IsLast (Hdr (fst m))
                 \<and> (\<forall>c\<in>set pre. \<not> IsLast (Hdr (fst c)))"
      using c(1) d by (intro exI [of _ "cmplCh s"] exI [of _ "(sizeObj lastMarker, term_err s)"]) simp
    show "cl_done s'" if "sl s' \<in> {SL_Inflight, SL_DrainSQ}" using that p c(3) by auto
  qed
qed


lemma inv_phase_ACmpl:
  assumes st: "step H ACmpl s = Some s'" and "inv_phase s"
  shows "inv_phase s'"
proof -
  from step_ACmpl [OF st] obtain obj err rest where
    c: "\<not> cl_done s" "cmplCh s = (obj, err) # rest"
    and d: "(IsLast (Hdr obj) \<and> s' = s\<lparr>cmplCh := rest, cl_done := True\<rparr>)
              \<or> (\<not> IsLast (Hdr obj)
                 \<and> (\<exists>evs heap'. s' = s\<lparr>cmplCh := rest, rc_heap := heap',
                               done_log := done_log s @ [(obj, err, evs)]\<rparr>))"
    by blast
  show ?thesis
  proof (cases "before_terminate s")
    case True
    note b = inv_phase_beforeD [OF assms(2) True]
    with c have "\<not> IsLast (Hdr obj)" by simp
    with d obtain evs heap' where
      e: "s' = s\<lparr>cmplCh := rest, rc_heap := heap', done_log := done_log s @ [(obj, err, evs)]\<rparr>"
      by blast
    have "before_terminate s'" using True by (simp add: e before_terminate_def)
    then show ?thesis
      by (rule inv_phase_beforeI) (use b c in \<open>simp_all add: e\<close>)
  next
    case False
    note a = inv_phase_afterD [OF assms(2) False]
    from a(3) [OF c(1)] c(2) obtain pre m where
      p: "(obj, err) # rest = pre @ [m]" "IsLast (Hdr (fst m))"
        "\<forall>c\<in>set pre. \<not> IsLast (Hdr (fst c))"
      by auto
    have nd: "sl s \<notin> {SL_Inflight, SL_DrainSQ}"
      using assms(2) c(1) unfolding inv_phase_def by blast
    show ?thesis
    proof (cases pre)
      case Nil
      with p have l: "IsLast (Hdr obj)" and r: "rest = []" by auto
      with d have e: "s' = s\<lparr>cmplCh := [], cl_done := True\<rparr>" by blast
      show ?thesis
      proof (rule inv_phase_afterI)
        show "\<not> before_terminate s'" using False by (simp add: e before_terminate_def)
        show "term_terminated s'" using a(1) by (simp add: e)
        show "cmplCh s' = []" by (simp add: e)
        show "\<exists>pre m. cmplCh s' = pre @ [m] \<and> IsLast (Hdr (fst m))
                 \<and> (\<forall>c\<in>set pre. \<not> IsLast (Hdr (fst c)))" if "\<not> cl_done s'"
          using that by (simp add: e)
        show "cl_done s'" by (simp add: e)
      qed
    next
      case (Cons x xs)
      with p have l: "\<not> IsLast (Hdr obj)" and r: "rest = xs @ [m]"
        and x: "\<forall>c\<in>set xs. \<not> IsLast (Hdr (fst c))" by auto
      from l d obtain evs heap' where
        e: "s' = s\<lparr>cmplCh := rest, rc_heap := heap', done_log := done_log s @ [(obj, err, evs)]\<rparr>"
        by blast
      show ?thesis
      proof (rule inv_phase_afterI)
        show "\<not> before_terminate s'" using False by (simp add: e before_terminate_def)
        show "term_terminated s'" using a(1) by (simp add: e)
        show "cmplCh s' = []" if "cl_done s'" using that c(1) by (simp add: e)
        show "\<exists>pre m. cmplCh s' = pre @ [m] \<and> IsLast (Hdr (fst m))
                 \<and> (\<forall>c\<in>set pre. \<not> IsLast (Hdr (fst c)))"
          using r x p(2) by (intro exI [of _ xs] exI [of _ m]) (simp add: e)
        show "cl_done s'" if "sl s' \<in> {SL_Inflight, SL_DrainSQ}"
          using that nd by (simp add: e)
      qed
    qed
  qed
qed

lemma not_before_terminate [simp]:
  "sl s \<in> {SL_Wait, SL_Inflight, SL_DrainSQ, SL_Exit} \<Longrightarrow> \<not> before_terminate s"
  by (auto simp: before_terminate_def)

lemma inv_phase_AWait:
  assumes st: "step H AWait s = Some s'" and "inv_phase s"
  shows "inv_phase s'"
proof -
  from step_AWait [OF st] have pc: "sl s = SL_Wait" and cd: "cl_done s"
    and e: "s' = s\<lparr>sl := SL_Inflight\<rparr>" by simp_all
  from pc have nb: "\<not> before_terminate s" by simp
  note a = inv_phase_afterD [OF assms(2) nb]
  show ?thesis
    by (rule inv_phase_afterI) (use a cd in \<open>simp_all add: e\<close>)
qed

lemma inv_phase_AInflight:
  assumes st: "step H AInflight s = Some s'" and "inv_phase s"
  shows "inv_phase s'"
proof -
  from step_AInflight [OF st] obtain dl heap' where pc: "sl s = SL_Inflight"
    and e: "s' = s\<lparr>sl := SL_DrainSQ, rc_heap := heap', done_log := dl\<rparr> \<or> s' = s\<lparr>sl := SL_DrainSQ\<rparr>"
    by blast
  from pc have nb: "\<not> before_terminate s" by simp
  note a = inv_phase_afterD [OF assms(2) nb]
  from inv_phase_drainD [OF assms(2)] pc have cd: "cl_done s" "cmplCh s = []" by simp_all
  from e show ?thesis
  proof
    assume e: "s' = s\<lparr>sl := SL_DrainSQ, rc_heap := heap', done_log := dl\<rparr>"
    show ?thesis by (rule inv_phase_afterI) (use a cd in \<open>simp_all add: e\<close>)
  next
    assume e: "s' = s\<lparr>sl := SL_DrainSQ\<rparr>"
    show ?thesis by (rule inv_phase_afterI) (use a cd in \<open>simp_all add: e\<close>)
  qed
qed

lemma inv_phase_ADrainSQ:
  assumes st: "step H ADrainSQ s = Some s'" and "inv_phase s"
  shows "inv_phase s'"
proof -
  from step_ADrainSQ [OF st] obtain rest heap' dl where pc: "sl s = SL_DrainSQ"
    and e: "s' = s\<lparr>workCh := rest, rc_heap := heap', done_log := dl\<rparr>"
    by blast
  have "inv_phase s' = inv_phase s"
    by (rule inv_phase_cong) (simp_all add: e)
  with assms(2) show ?thesis by simp
qed

lemma inv_phase_step:
  assumes "step H a s = Some s'" and "inv_phase s" and "inv_readers s"
  shows "inv_phase s'"
  using assms
  by (cases a)
    (blast intro: inv_phase_ASend inv_phase_AStop inv_phase_ATick inv_phase_ALoop
      inv_phase_ARead inv_phase_ADoReturns inv_phase_ANext inv_phase_ATerminate
      inv_phase_ACmpl inv_phase_AWait inv_phase_AInflight inv_phase_ADrainSQ)+

lemma real_obj_last: "IsLast (Hdr obj) \<Longrightarrow> \<not> real_obj obj"
  by (simp add: real_obj_def)

lemma inv_done_cong:
  "done_log s' = done_log s \<Longrightarrow> cmplCh s' = cmplCh s \<Longrightarrow> inflight s' = inflight s
   \<Longrightarrow> workCh s' = workCh s \<Longrightarrow> sq_log s' = sq_log s
   \<Longrightarrow> (sl s' = SL_DrainSQ) = (sl s = SL_DrainSQ) \<Longrightarrow> inv_done s' = inv_done s"
  by (simp add: inv_done_def)

lemma inv_done_ASend:
  assumes st: "step H (ASend obj) s = Some s'" and "inv_done s"
  shows "inv_done s'"
proof -
  from step_ASend [OF st] obtain new where
    e: "sl s' = sl s" "cmplCh s' = cmplCh s" "inflight s' = inflight s" "done_log s' = done_log s"
      "workCh s' = workCh s @ new" "sq_log s' = sq_log s @ new"
    by blast
  from assms(2) show ?thesis by (auto simp: inv_done_def e split: if_splits)
qed

lemma inv_done_AStop:
  assumes st: "step H AStop s = Some s'" and "inv_done s"
  shows "inv_done s'"
proof -
  from step_AStop [OF st] have "inv_done s' = inv_done s"
    by (intro inv_done_cong) simp_all
  with assms(2) show ?thesis by simp
qed

lemma inv_done_ATick:
  assumes st: "step H ATick s = Some s'" and "inv_done s"
  shows "inv_done s'"
proof -
  note e = step_ATick [OF st]
  have i: "inflight s' = inflight s" by (simp add: e inflight_def)
  from assms(2) show ?thesis by (auto simp: inv_done_def e i [unfolded e] idents_Cons split: if_splits)
qed

lemma inv_done_ALoop:
  assumes st: "step H ALoop s = Some s'" and "inv_done s"
  shows "inv_done s'"
proof -
  from step_ALoop [OF st] have pc: "sl s = SL_Top"
    and e: "s' = (doRequest s)\<lparr>sl := SL_InReq\<rparr> \<or> s' = s\<lparr>sl := SL_IsNextReq\<rparr>" by simp_all
  from e pc have "inv_done s' = inv_done s"
    by (intro inv_done_cong) (auto simp: doRequest_def inflight_def)
  with assms(2) show ?thesis by simp
qed

lemma inv_done_ARead:
  assumes st: "step H (ARead p k) s = Some s'" and "inv_done s" and "inv_readers s"
  shows "inv_done s'"
proof -
  from step_ARead [OF st assms(3)] obtain new where
    r: "sl s = SL_InReq" "sl s' = SL_InReq" "sq_log s' = sq_log s" "done_log s' = done_log s"
      "cmplCh s' = cmplCh s @ new"
      "idents (map fst new) @ idents (inflight s') @ idents (workCh s')
         = idents (inflight s) @ idents (workCh s)"
    by blast
  from assms(2) r(1) have
    "idents (map fst (done_log s)) @ idents (map fst (cmplCh s))
        @ (idents (inflight s) @ idents (workCh s)) = idents (sq_log s)"
    by (simp add: inv_done_def)
  with r(6) have
    "idents (map fst (done_log s)) @ idents (map fst (cmplCh s))
        @ (idents (map fst new) @ idents (inflight s') @ idents (workCh s')) = idents (sq_log s)"
    by simp
  then show ?thesis by (simp add: inv_done_def r(2-5))
qed

lemma inv_done_ADoReturns:
  assumes st: "step H (ADoReturns r) s = Some s'" and "inv_done s"
  shows "inv_done s'"
proof -
  from step_ADoReturns [OF st] have pc: "sl s = SL_InReq"
    and e: "s' = s\<lparr>sl := SL_IsNextReq\<rparr>
           \<or> (\<exists>e. s' = s\<lparr>term_reason := reasonError, term_err := Some e, sl := SL_Terminate\<rparr>)"
    by simp_all
  from e pc have "inv_done s' = inv_done s"
    by (intro inv_done_cong) (auto simp: inflight_def)
  with assms(2) show ?thesis by simp
qed

lemma inv_done_ANext:
  assumes st: "step H (ANext c) s = Some s'" and "inv_done s"
  shows "inv_done s'"
proof -
  from step_ANext [OF st] obtain r n st' pc where pc: "sl s = SL_IsNextReq"
    and e: "s' = s\<lparr>term_reason := r, postCh := n, sessST := st', sl := pc\<rparr>"
    and p: "pc \<in> {SL_Top, SL_Terminate}" by blast
  from p pc have "inv_done s' = inv_done s"
    by (intro inv_done_cong) (auto simp: e inflight_def)
  with assms(2) show ?thesis by simp
qed

lemma inv_done_ATerminate:
  assumes st: "step H ATerminate s = Some s'" and "inv_done s"
  shows "inv_done s'"
proof -
  from step_ATerminate [OF st] obtain pc where pc: "sl s = SL_Terminate"
    and p: "pc \<in> {SL_Wait, SL_Exit}"
    and e: "s' = s\<lparr>term_terminated := True, stopCh := True,
                 cmplCh := cmplCh s @ [(sizeObj lastMarker, term_err s)],
                 scq_log := scq_log s @ [(sizeObj lastMarker, term_err s)], sl := pc\<rparr>"
    by blast
  have f: "cmplCh s' = cmplCh s @ [(sizeObj lastMarker, term_err s)]" "sl s' = pc"
    "done_log s' = done_log s" "workCh s' = workCh s" "sq_log s' = sq_log s"
    "inflight s' = inflight s"
    by (simp_all add: e)
  from p have n: "pc \<noteq> SL_DrainSQ" by auto
  from assms(2) pc show ?thesis by (auto simp: inv_done_def f n idents_Cons split: if_splits)
qed

lemma inv_done_ACmpl:
  assumes st: "step H ACmpl s = Some s'" and "inv_done s"
  shows "inv_done s'"
proof -
  from step_ACmpl [OF st] obtain obj err rest where
    c: "cmplCh s = (obj, err) # rest"
    and d: "(IsLast (Hdr obj) \<and> s' = s\<lparr>cmplCh := rest, cl_done := True\<rparr>)
              \<or> (\<not> IsLast (Hdr obj)
                 \<and> (\<exists>evs heap'. s' = s\<lparr>cmplCh := rest, rc_heap := heap',
                               done_log := done_log s @ [(obj, err, evs)]\<rparr>))"
    by blast
  from d show ?thesis
  proof
    assume a: "IsLast (Hdr obj) \<and> s' = s\<lparr>cmplCh := rest, cl_done := True\<rparr>"
    then have e: "s' = s\<lparr>cmplCh := rest, cl_done := True\<rparr>" and nr: "\<not> real_obj obj"
      by (simp_all add: real_obj_last)
    from assms(2) show ?thesis by (auto simp: inv_done_def e c nr idents_Cons split: if_splits)
  next
    assume "\<not> IsLast (Hdr obj)
                 \<and> (\<exists>evs heap'. s' = s\<lparr>cmplCh := rest, rc_heap := heap',
                               done_log := done_log s @ [(obj, err, evs)]\<rparr>)"
    then obtain evs heap' where
      e: "s' = s\<lparr>cmplCh := rest, rc_heap := heap', done_log := done_log s @ [(obj, err, evs)]\<rparr>"
      by blast
    from assms(2) show ?thesis by (auto simp: inv_done_def e c idents_Cons split: if_splits)
  qed
qed

lemma inv_done_AWait:
  assumes st: "step H AWait s = Some s'" and "inv_done s"
  shows "inv_done s'"
proof -
  from step_AWait [OF st] have pc: "sl s = SL_Wait" and e: "s' = s\<lparr>sl := SL_Inflight\<rparr>"
    by simp_all
  from pc have "inv_done s' = inv_done s"
    by (intro inv_done_cong) (simp_all add: e)
  with assms(2) show ?thesis by simp
qed

lemma inv_done_AInflight:
  assumes st: "step H AInflight s = Some s'" and "inv_done s" and "inv_phase s"
  shows "inv_done s'"
proof -
  from step_AInflight [OF st] have pc: "sl s = SL_Inflight"
    and d: "(Reader (sendoff_obj s) \<noteq> None
           \<and> (\<exists>evs heap'. s' = s\<lparr>sl := SL_DrainSQ, rc_heap := heap',
                           done_log := done_log s @ [(sendoff_obj s, term_err s, evs)]\<rparr>))
          \<or> (Reader (sendoff_obj s) = None \<and> s' = s\<lparr>sl := SL_DrainSQ\<rparr>)"
    by blast+
  from inv_phase_drainD [OF assms(3)] pc have c: "cmplCh s = []" by simp
  from d show ?thesis
  proof
    assume "Reader (sendoff_obj s) \<noteq> None
           \<and> (\<exists>evs heap'. s' = s\<lparr>sl := SL_DrainSQ, rc_heap := heap',
                           done_log := done_log s @ [(sendoff_obj s, term_err s, evs)]\<rparr>)"
    then obtain evs heap' where i: "inflight s = [sendoff_obj s]"
      and e: "s' = s\<lparr>sl := SL_DrainSQ, rc_heap := heap',
                           done_log := done_log s @ [(sendoff_obj s, term_err s, evs)]\<rparr>"
      by (auto simp: inflight_def)
    from assms(2) pc show ?thesis by (auto simp: inv_done_def e c i split: if_splits)
  next
    assume "Reader (sendoff_obj s) = None \<and> s' = s\<lparr>sl := SL_DrainSQ\<rparr>"
    then have i: "inflight s = []" and e: "s' = s\<lparr>sl := SL_DrainSQ\<rparr>"
      by (simp_all add: inflight_def)
    from assms(2) pc show ?thesis by (auto simp: inv_done_def e c i split: if_splits)
  qed
qed

lemma inv_done_ADrainSQ:
  assumes st: "step H ADrainSQ s = Some s'" and "inv_done s" and "inv_phase s"
  shows "inv_done s'"
proof -
  from step_ADrainSQ [OF st] obtain obj rest evs heap' where pc: "sl s = SL_DrainSQ"
    and w: "workCh s = obj # rest"
    and e: "s' = s\<lparr>workCh := rest, rc_heap := heap',
                     done_log := done_log s @ [(obj, term_err s, evs)]\<rparr>"
    by blast
  from inv_phase_drainD [OF assms(3)] pc have c: "cmplCh s = []" by simp
  from assms(2) pc show ?thesis by (auto simp: inv_done_def e c w idents_Cons split: if_splits)
qed

lemma inv_done_step:
  assumes "step H a s = Some s'" and "inv_done s" and "inv_phase s" and "inv_readers s"
  shows "inv_done s'"
  using assms
  by (cases a)
    (blast intro: inv_done_ASend inv_done_AStop inv_done_ATick inv_done_ALoop
      inv_done_ARead inv_done_ADoReturns inv_done_ANext inv_done_ATerminate
      inv_done_ACmpl inv_done_AWait inv_done_AInflight inv_done_ADrainSQ)+

lemma inv_scq_cong:
  "scq_log s' = scq_log s \<Longrightarrow> inflight s' = inflight s \<Longrightarrow> workCh s' = workCh s
   \<Longrightarrow> sq_log s' = sq_log s \<Longrightarrow> before_terminate s' = before_terminate s
   \<Longrightarrow> inv_scq s' = inv_scq s"
  by (simp add: inv_scq_def)

lemma inv_scq_after:
  "\<not> before_terminate s \<Longrightarrow> \<not> before_terminate s' \<Longrightarrow> scq_log s' = scq_log s
   \<Longrightarrow> sq_log s' = sq_log s \<Longrightarrow> inv_scq s \<Longrightarrow> inv_scq s'"
  by (simp add: inv_scq_def)

lemma inv_scq_ASend:
  assumes st: "step H (ASend obj) s = Some s'" and "inv_scq s"
  shows "inv_scq s'"
proof -
  from step_ASend [OF st] obtain new where
    e: "sl s' = sl s" "inflight s' = inflight s" "scq_log s' = scq_log s"
      "workCh s' = workCh s @ new" "sq_log s' = sq_log s @ new"
    by blast
  have b: "before_terminate s' = before_terminate s" using e(1) by (simp add: before_terminate_def)
  show ?thesis
  proof (cases "before_terminate s")
    case True
    with assms(2) show ?thesis by (simp add: inv_scq_def b e)
  next
    case False
    with assms(2) have "prefix (idents (map fst (scq_log s))) (idents (sq_log s))"
      by (simp add: inv_scq_def)
    then have "prefix (idents (map fst (scq_log s))) (idents (sq_log s) @ idents new)"
      by (rule prefix_prefix)
    with False show ?thesis by (simp add: inv_scq_def b e)
  qed
qed

lemma inv_scq_AStop:
  assumes st: "step H AStop s = Some s'" and "inv_scq s"
  shows "inv_scq s'"
proof -
  from step_AStop [OF st] have "inv_scq s' = inv_scq s"
    by (intro inv_scq_cong) (simp_all add: before_terminate_def)
  with assms(2) show ?thesis by simp
qed

lemma inv_scq_ATick:
  assumes st: "step H ATick s = Some s'" and "inv_scq s"
  shows "inv_scq s'"
proof -
  note e = step_ATick [OF st]
  have f: "scq_log s' = scq_log s" "inflight s' = inflight s" "sq_log s' = sq_log s"
    "workCh s' = workCh s @ [sizeObj tickMarker]" "before_terminate s' = before_terminate s"
    by (simp_all add: e before_terminate_def inflight_def)
  show ?thesis
  proof (cases "before_terminate s")
    case True
    with assms(2) show ?thesis by (simp add: inv_scq_def f idents_Cons)
  next
    case False
    with assms(2) show ?thesis by (simp add: inv_scq_def f)
  qed
qed

lemma inv_scq_ALoop:
  assumes st: "step H ALoop s = Some s'" and "inv_scq s"
  shows "inv_scq s'"
proof -
  from step_ALoop [OF st] have pc: "sl s = SL_Top"
    and e: "s' = (doRequest s)\<lparr>sl := SL_InReq\<rparr> \<or> s' = s\<lparr>sl := SL_IsNextReq\<rparr>" by simp_all
  from e pc have "inv_scq s' = inv_scq s"
    by (intro inv_scq_cong) (auto simp: doRequest_def inflight_def before_terminate_def)
  with assms(2) show ?thesis by simp
qed

lemma inv_scq_ARead:
  assumes st: "step H (ARead p k) s = Some s'" and "inv_scq s" and "inv_readers s"
  shows "inv_scq s'"
proof -
  from step_ARead [OF st assms(3)] obtain new where
    r: "sl s = SL_InReq" "sl s' = SL_InReq" "sq_log s' = sq_log s"
      "scq_log s' = scq_log s @ new"
      "idents (map fst new) @ idents (inflight s') @ idents (workCh s')
         = idents (inflight s) @ idents (workCh s)"
    by blast
  from r have b: "before_terminate s" "before_terminate s'" by (simp_all add: before_terminate_def)
  from assms(2) b(1) have
    "idents (map fst (scq_log s)) @ (idents (inflight s) @ idents (workCh s)) = idents (sq_log s)"
    by (simp add: inv_scq_def)
  with r(5) have
    "idents (map fst (scq_log s)) @ (idents (map fst new) @ idents (inflight s') @ idents (workCh s'))
       = idents (sq_log s)"
    by simp
  with b(2) show ?thesis by (simp add: inv_scq_def r(3,4))
qed

lemma inv_scq_ADoReturns:
  assumes st: "step H (ADoReturns r) s = Some s'" and "inv_scq s"
  shows "inv_scq s'"
proof -
  from step_ADoReturns [OF st] have pc: "sl s = SL_InReq"
    and e: "s' = s\<lparr>sl := SL_IsNextReq\<rparr>
           \<or> (\<exists>e. s' = s\<lparr>term_reason := reasonError, term_err := Some e, sl := SL_Terminate\<rparr>)"
    by simp_all
  from e pc have "inv_scq s' = inv_scq s"
    by (intro inv_scq_cong) (auto simp: inflight_def before_terminate_def)
  with assms(2) show ?thesis by simp
qed

lemma inv_scq_ANext:
  assumes st: "step H (ANext c) s = Some s'" and "inv_scq s"
  shows "inv_scq s'"
proof -
  from step_ANext [OF st] obtain r n st' pc where pc: "sl s = SL_IsNextReq"
    and e: "s' = s\<lparr>term_reason := r, postCh := n, sessST := st', sl := pc\<rparr>"
    and p: "pc \<in> {SL_Top, SL_Terminate}" by blast
  from p pc have "inv_scq s' = inv_scq s"
    by (intro inv_scq_cong) (auto simp: e inflight_def before_terminate_def)
  with assms(2) show ?thesis by simp
qed

lemma inv_scq_ATerminate:
  assumes st: "step H ATerminate s = Some s'" and "inv_scq s"
  shows "inv_scq s'"
proof -
  from step_ATerminate [OF st] obtain pc where pc: "sl s = SL_Terminate"
    and p: "pc \<in> {SL_Wait, SL_Exit}"
    and e: "s' = s\<lparr>term_terminated := True, stopCh := True,
                 cmplCh := cmplCh s @ [(sizeObj lastMarker, term_err s)],
                 scq_log := scq_log s @ [(sizeObj lastMarker, term_err s)], sl := pc\<rparr>"
    by blast
  have f: "scq_log s' = scq_log s @ [(sizeObj lastMarker, term_err s)]" "sl s' = pc"
    "sq_log s' = sq_log s"
    by (simp_all add: e)
  from pc have b: "before_terminate s" by (simp add: before_terminate_def)
  from p f(2) have nb: "\<not> before_terminate s'" by (auto simp: before_terminate_def)
  from assms(2) b have
    "idents (map fst (scq_log s)) @ (idents (inflight s) @ idents (workCh s)) = idents (sq_log s)"
    by (simp add: inv_scq_def)
  then have "prefix (idents (map fst (scq_log s))) (idents (sq_log s))"
    by (metis prefixI)
  with nb show ?thesis by (simp add: inv_scq_def f idents_Cons)
qed

lemma inv_scq_ACmpl:
  assumes st: "step H ACmpl s = Some s'" and "inv_scq s"
  shows "inv_scq s'"
proof -
  from step_ACmpl [OF st] obtain rest heap' dl where
    d: "s' = s\<lparr>cmplCh := rest, cl_done := True\<rparr>
         \<or> s' = s\<lparr>cmplCh := rest, rc_heap := heap', done_log := dl\<rparr>"
    by blast
  then have "inv_scq s' = inv_scq s"
    by (intro inv_scq_cong) (auto simp: inflight_def before_terminate_def)
  with assms(2) show ?thesis by simp
qed

lemma inv_scq_AWait:
  assumes st: "step H AWait s = Some s'" and "inv_scq s"
  shows "inv_scq s'"
proof -
  from step_AWait [OF st] have pc: "sl s = SL_Wait" and e: "s' = s\<lparr>sl := SL_Inflight\<rparr>"
    by simp_all
  show ?thesis
    by (rule inv_scq_after [OF _ _ _ _ assms(2)]) (simp_all add: pc e)
qed

lemma inv_scq_AInflight:
  assumes st: "step H AInflight s = Some s'" and "inv_scq s"
  shows "inv_scq s'"
proof -
  from step_AInflight [OF st] obtain dl heap' where pc: "sl s = SL_Inflight"
    and e: "s' = s\<lparr>sl := SL_DrainSQ, rc_heap := heap', done_log := dl\<rparr> \<or> s' = s\<lparr>sl := SL_DrainSQ\<rparr>"
    by blast
  from e show ?thesis
  proof
    assume e: "s' = s\<lparr>sl := SL_DrainSQ, rc_heap := heap', done_log := dl\<rparr>"
    show ?thesis by (rule inv_scq_after [OF _ _ _ _ assms(2)]) (simp_all add: pc e)
  next
    assume e: "s' = s\<lparr>sl := SL_DrainSQ\<rparr>"
    show ?thesis by (rule inv_scq_after [OF _ _ _ _ assms(2)]) (simp_all add: pc e)
  qed
qed

lemma inv_scq_ADrainSQ:
  assumes st: "step H ADrainSQ s = Some s'" and "inv_scq s"
  shows "inv_scq s'"
proof -
  from step_ADrainSQ [OF st] obtain rest heap' dl where pc: "sl s = SL_DrainSQ"
    and e: "s' = s\<lparr>workCh := rest, rc_heap := heap', done_log := dl\<rparr>"
    by blast
  have "sl s' = SL_DrainSQ" by (simp add: e pc)
  then show ?thesis
    by (intro inv_scq_after [OF _ _ _ _ assms(2)]) (simp_all add: pc e)
qed

lemma inv_scq_step:
  assumes "step H a s = Some s'" and "inv_scq s" and "inv_readers s"
  shows "inv_scq s'"
  using assms
  by (cases a)
    (blast intro: inv_scq_ASend inv_scq_AStop inv_scq_ATick inv_scq_ALoop
      inv_scq_ARead inv_scq_ADoReturns inv_scq_ANext inv_scq_ATerminate
      inv_scq_ACmpl inv_scq_AWait inv_scq_AInflight inv_scq_ADrainSQ)+

lemma inv_completions_cong:
  "done_log s' = done_log s \<Longrightarrow> callback s' = callback s
   \<Longrightarrow> inv_completions s' = inv_completions s"
  by (simp add: inv_completions_def)

lemma inv_completions_add:
  "inv_completions s \<Longrightarrow> completion_ok (callback s) obj err evs \<Longrightarrow> callback s' = callback s
   \<Longrightarrow> done_log s' = done_log s @ [(obj, err, evs)] \<Longrightarrow> inv_completions s'"
  by (simp add: inv_completions_def)

lemma inv_completions_step:
  assumes st: "step H a s = Some s'" and "inv_completions s" and "inv_readers s"
  shows "inv_completions s'"
proof (cases a)
  case (ASend obj)
  from step_ASend [OF st [unfolded ASend]] have "inv_completions s' = inv_completions s"
    by (intro inv_completions_cong) simp_all
  with assms(2) show ?thesis by simp
next
  case AStop
  from step_AStop [OF st [unfolded AStop]] have "inv_completions s' = inv_completions s"
    by (intro inv_completions_cong) simp_all
  with assms(2) show ?thesis by simp
next
  case ATick
  from step_ATick [OF st [unfolded ATick]] have "inv_completions s' = inv_completions s"
    by (intro inv_completions_cong) simp_all
  with assms(2) show ?thesis by simp
next
  case ALoop
  from step_ALoop [OF st [unfolded ALoop]] have "inv_completions s' = inv_completions s"
    by (intro inv_completions_cong) (auto simp: doRequest_def)
  with assms(2) show ?thesis by simp
next
  case (ARead p k)
  from step_ARead [OF st [unfolded ARead] assms(3)] have "inv_completions s' = inv_completions s"
    by (intro inv_completions_cong) simp_all
  with assms(2) show ?thesis by simp
next
  case (ADoReturns r)
  from step_ADoReturns [OF st [unfolded ADoReturns]] have "inv_completions s' = inv_completions s"
    by (intro inv_completions_cong) auto
  with assms(2) show ?thesis by simp
next
  case (ANext c)
  from step_ANext [OF st [unfolded ANext]] have "inv_completions s' = inv_completions s"
    by (intro inv_completions_cong) auto
  with assms(2) show ?thesis by simp
next
  case ATerminate
  from step_ATerminate [OF st [unfolded ATerminate]] have "inv_completions s' = inv_completions s"
    by (intro inv_completions_cong) auto
  with assms(2) show ?thesis by simp
next
  case ACmpl
  from step_ACmpl [OF st [unfolded ACmpl]] obtain obj err rest where
    d: "s' = s\<lparr>cmplCh := rest, cl_done := True\<rparr>
              \<or> (\<exists>evs heap'. completion_ok (callback s) obj err evs
                     \<and> s' = s\<lparr>cmplCh := rest, rc_heap := heap',
                               done_log := done_log s @ [(obj, err, evs)]\<rparr>)"
    by blast
  from d show ?thesis
  proof
    assume "s' = s\<lparr>cmplCh := rest, cl_done := True\<rparr>"
    then have "inv_completions s' = inv_completions s"
      by (intro inv_completions_cong) simp_all
    with assms(2) show ?thesis by simp
  next
    assume "\<exists>evs heap'. completion_ok (callback s) obj err evs
                     \<and> s' = s\<lparr>cmplCh := rest, rc_heap := heap',
                               done_log := done_log s @ [(obj, err, evs)]\<rparr>"
    then obtain evs heap' where ok: "completion_ok (callback s) obj err evs"
      and e: "s' = s\<lparr>cmplCh := rest, rc_heap := heap',
                               done_log := done_log s @ [(obj, err, evs)]\<rparr>" by blast
    show ?thesis by (rule inv_completions_add [OF assms(2) ok]) (simp_all add: e)
  qed
next
  case AWait
  from step_AWait [OF st [unfolded AWait]] have "inv_completions s' = inv_completions s"
    by (intro inv_completions_cong) simp_all
  with assms(2) show ?thesis by simp
next
  case AInflight
  from step_AInflight [OF st [unfolded AInflight]] have
    d: "(\<exists>evs heap'. completion_ok (callback s) (sendoff_obj s) (term_err s) evs
                 \<and> s' = s\<lparr>sl := SL_DrainSQ, rc_heap := heap',
                           done_log := done_log s @ [(sendoff_obj s, term_err s, evs)]\<rparr>)
          \<or> s' = s\<lparr>sl := SL_DrainSQ\<rparr>"
    by blast
  from d show ?thesis
  proof
    assume "s' = s\<lparr>sl := SL_DrainSQ\<rparr>"
    then have "inv_completions s' = inv_completions s"
      by (intro inv_completions_cong) simp_all
    with assms(2) show ?thesis by simp
  next
    assume "\<exists>evs heap'. completion_ok (callback s) (sendoff_obj s) (term_err s) evs
                 \<and> s' = s\<lparr>sl := SL_DrainSQ, rc_heap := heap',
                           done_log := done_log s @ [(sendoff_obj s, term_err s, evs)]\<rparr>"
    then obtain evs heap' where ok: "completion_ok (callback s) (sendoff_obj s) (term_err s) evs"
      and e: "s' = s\<lparr>sl := SL_DrainSQ, rc_heap := heap',
                           done_log := done_log s @ [(sendoff_obj s, term_err s, evs)]\<rparr>" by blast
    show ?thesis by (rule inv_completions_add [OF assms(2) ok]) (simp_all add: e)
  qed
next
  case ADrainSQ
  from step_ADrainSQ [OF st [unfolded ADrainSQ]] obtain obj rest evs heap' where
    ok: "completion_ok (callback s) obj (term_err s) evs"
    and e: "s' = s\<lparr>workCh := rest, rc_heap := heap',
                     done_log := done_log s @ [(obj, term_err s, evs)]\<rparr>"
    by blast
  show ?thesis by (rule inv_completions_add [OF assms(2) ok]) (simp_all add: e)
qed

lemma stream_inv_step:
  assumes "stream_inv s" and "step H a s = Some s'"
  shows "stream_inv s'"
  using assms unfolding stream_inv_def
  by (auto intro: inv_readers_step inv_phase_step inv_done_step inv_scq_step inv_completions_step)

lemma stream_inv_exec:
  "stream_inv s \<Longrightarrow> exec H acts s = Some s' \<Longrightarrow> stream_inv s'"
proof (induction acts arbitrary: s)
  case Nil
  then show ?case by simp
next
  case (Cons a acts)
  from Cons.prems(2) obtain s1 where s1: "step H a s = Some s1" and e: "exec H acts s1 = Some s'"
    by (auto split: option.splits)
  from stream_inv_step [OF Cons.prems(1) s1] e show ?case by (rule Cons.IH)
qed

lemma start_fields:
  "sl (start st heap) = SL_Top" "cl_done (start st heap) = False"
  "sq_log (start st heap) = []" "scq_log (start st heap) = []" "done_log (start st heap) = []"
  "wire (start st heap) = []" "rc_heap (start st heap) = heap"
  "workCh (start st heap) = workCh st" "cmplCh (start st heap) = cmplCh st"
  "sendoff_obj (start st heap) = sendoff_obj st" "term_terminated (start st heap) = term_terminated st"
  "callback (start st heap) = callback st" "workCh_cap (start st heap) = workCh_cap st"
  "cmplCh_cap (start st heap) = cmplCh_cap st"
  by (simp_all add: start_def Stream.extend_def sys.fields_def Stream.defs sys.defs)

lemma NewStream_fresh:
  assumes "NewStream env maxcap url_ok has_client extra sid = Returns (Some st) dryrun"
  shows "workCh st = [] \<and> cmplCh st = [] \<and> sendoff_obj st = Obj0 \<and> \<not> term_terminated st
       \<and> workCh_cap st = nat (burst_of_env env) \<and> cmplCh_cap st = nat (burst_of_env env)"
  using assms by (auto simp: NewStream_def Let_def split: if_splits)

lemma stream_inv_initial:
  assumes "initial s"
  shows "stream_inv s"
proof -
  from assms obtain env maxcap has_client extra sid st dryrun heap where
    n: "NewStream env maxcap True has_client extra sid = Returns (Some st) dryrun"
    and s: "s = start st heap"
    unfolding initial_def by blast
  note f = NewStream_fresh [OF n]
  have i: "inflight s = []" by (simp add: inflight_def s start_fields f Obj0_def)
  have b: "before_terminate s" by (simp add: before_terminate_def s start_fields)
  show ?thesis
    unfolding stream_inv_def inv_readers_def inv_phase_def inv_done_def inv_scq_def
      inv_completions_def
    using b i by (simp add: s start_fields f)
qed

subsection \<open>The burst size of a new stream\<close>

text \<open>
  C8 as stated fails: with \<open>STREAM_BURST_NUM\<close> set to \<open>4\<close>, which parses as the positive integer
  4, the stream \<open>NewStream\<close> returns has an SQ and an SCQ of capacity 32. The variable the code
  reads is \<open>AIS_STREAM_BURST_NUM\<close>.
\<close>

theorem NewStream_burst_counterexample:
  "ParseInt10 ''4'' = Some 4
 \<and> capacities (NewStream [''STREAM_BURST_NUM'' \<mapsto> ''4''] 1024 True True None 1) = Some (32, 32)"
  by (simp add: ParseInt10_def ParseUint10_def digit_of_def NewStream_def Let_def burst_of_env_def
                Getenv_def burstNum_def defaultIdleOut_def tickUnit_def)

text \<open>
  C8, amended. For a URL that parses and a client, \<open>NewStream\<close> returns a stream whose SQ and
  SCQ, both empty, have the same capacity: the integer \<open>strconv.ParseInt\<close> reads in the value
  of \<open>AIS_STREAM_BURST_NUM\<close>, and 32 when the variable is unset, empty or does not parse;
  provided that number is not negative and not past what the runtime allocates (\<open>NewStream\<close>
  panics otherwise). The variable \<open>STREAM_BURST_NUM\<close> is not read: setting it to any value, or
  unsetting it, changes nothing.
\<close>

theorem NewStream_burst:
  assumes "url_ok" and "has_client"
    and "b = (case env ''AIS_STREAM_BURST_NUM'' of
                None \<Rightarrow> 32
              | Some a \<Rightarrow> (case ParseInt10 a of None \<Rightarrow> 32 | Some n \<Rightarrow> n))"
    and "0 \<le> b" and "b \<le> int maxcap"
  shows "(\<exists>st dryrun. NewStream env maxcap url_ok has_client extra sid = Returns (Some st) dryrun
            \<and> workCh_cap st = nat b \<and> cmplCh_cap st = nat b \<and> workCh st = [] \<and> cmplCh st = [])
       \<and> NewStream (env(''STREAM_BURST_NUM'' := v)) maxcap url_ok has_client extra sid
           = NewStream env maxcap url_ok has_client extra sid"
proof -
  have p: "ParseInt10 [] = None" by (simp add: ParseInt10_def)
  have b: "burst_of_env env = b"
    using assms(3) p
    by (auto simp: burst_of_env_def Getenv_def Let_def burstNum_def split: option.splits)
  have e: "burst_of_env (env(''STREAM_BURST_NUM'' := v)) = burst_of_env env"
    by (simp add: burst_of_env_def Getenv_def)
  have g: "Getenv (env(''STREAM_BURST_NUM'' := v)) ''AIS_STREAM_DRY_RUN''
             = Getenv env ''AIS_STREAM_DRY_RUN''"
    by (simp add: Getenv_def)
  show ?thesis
    using assms(1,2,4,5) by (simp add: NewStream_def Let_def b e g)
qed

theorem NewStream_burst_witness:
  "ParseInt10 ''64'' = Some 64
 \<and> capacities (NewStream [''AIS_STREAM_BURST_NUM'' \<mapsto> ''64''] 1024 True True None 1) = Some (64, 64)
 \<and> capacities (NewStream [''AIS_STREAM_BURST_NUM'' \<mapsto> ''6x''] 1024 True True None 1) = Some (32, 32)
 \<and> capacities (NewStream Map.empty 1024 True True None 1) = Some (32, 32)"
proof -
  have p: "ParseInt10 ''64'' = Some 64"
    by (simp add: ParseInt10_def ParseUint10_def digit_of_def)
  have q: "ParseInt10 ''6x'' = None"
    by (simp add: ParseInt10_def ParseUint10_def digit_of_def)
  from NewStream_burst [where url_ok = True and has_client = True and b = 64 and maxcap = 1024
      and env = "[''AIS_STREAM_BURST_NUM'' \<mapsto> ''64'']" and extra = None and sid = 1 and v = None] p
  obtain st dryrun where
    "NewStream [''AIS_STREAM_BURST_NUM'' \<mapsto> ''64''] 1024 True True None 1 = Returns (Some st) dryrun"
    "workCh_cap st = 64" "cmplCh_cap st = 64"
    by auto
  then have "capacities (NewStream [''AIS_STREAM_BURST_NUM'' \<mapsto> ''64''] 1024 True True None 1)
               = Some (64, 64)"
    by simp
  moreover have "capacities (NewStream [''AIS_STREAM_BURST_NUM'' \<mapsto> ''6x''] 1024 True True None 1)
                   = Some (32, 32)"
    using q by (simp add: NewStream_def Let_def burst_of_env_def Getenv_def burstNum_def)
  moreover have "capacities (NewStream Map.empty 1024 True True None 1) = Some (32, 32)"
    by (simp add: NewStream_def Let_def burst_of_env_def Getenv_def burstNum_def)
  ultimately show ?thesis using p by simp
qed

lemma ex_stream_new:
  "NewStream Map.empty 1024 True True (Some \<lparr>IdleTimeout = 0, extra_Callback = Some 7\<rparr>) 1
     = Returns (Some ex_stream) False"
  by (simp add: NewStream_def Let_def burst_of_env_def Getenv_def burstNum_def defaultIdleOut_def
                tickUnit_def ex_stream_def)

lemma ex_sys_initial: "initial ex_sys"
  unfolding initial_def ex_sys_def using ex_stream_new by blast


end
